theory Spec2Isabelle
  imports Complex_Main "HOL-Library.Word" "HOL-Library.Monad_Syntax"
begin

unbundle bit_operations_syntax

section \<open>BRONZESIM: a shallow embedding of bronzesim.py\<close>

text \<open>
  Conventions of the embedding.
  \<^item> Python's unbounded integers are \<open>int\<close>; \<open>//\<close> and \<open>%\<close> are \<open>div\<close> and \<open>mod\<close>
    (both round towards minus infinity); \<open>&\<close>, \<open>|\<close>, \<open>^\<close>, \<open><<\<close>, \<open>>>\<close> are \<open>AND\<close>,
    \<open>OR\<close>, \<open>XOR\<close>, \<open>push_bit\<close>, \<open>drop_bit\<close> on \<open>int\<close>.
  \<^item> Python's floats are modelled by \<open>real\<close>: rounding, infinities and NaN are not
    modelled. \<open>int(f)\<close> on a float is truncation towards zero (\<open>py_int\<close>).
  \<^item> A subscript with a data-dependent index goes through \<open>py_get\<close>, which is \<open>None\<close>
    where Python raises IndexError; a function that can raise returns an \<open>option\<close>.
    The fixed-size lists (an inventory of 9 counts, a valuation vector of 9 reals, a
    pool of 14 counts) are subscripted with \<open>!\<close> only at constant indices.
  \<^item> An object reference into \<open>sim.agents\<close> is the index of the agent in that list.
  \<^item> Record fields that would clash with each other or with a HOL constant carry a
    prefix or suffix: \<open>tname\<close>, \<open>rname\<close>, \<open>vname\<close> for the three \<open>name\<close> fields,
    \<open>pos_x\<close>, \<open>pos_y\<close>, \<open>st_x\<close>, \<open>st_y\<close>, \<open>inventory\<close> for \<open>Agent.inv\<close>.
\<close>

subsection \<open>Python list subscripts and float truncation\<close>

definition py_get :: "'a list \<Rightarrow> int \<Rightarrow> 'a option" where
  "py_get xs i =
     (let n = int (length xs); j = (if i < 0 then n + i else i)
      in if 0 \<le> j \<and> j < n then Some (xs ! nat j) else None)"


definition py_int :: "real \<Rightarrow> int" where
  "py_int r = (if 0 \<le> r then \<lfloor>r\<rfloor> else \<lceil>r\<rceil>)"

subsection \<open>Constants and enumerations\<close>

definition WORLD_CELLS_X :: int where "WORLD_CELLS_X = (30 * 5280) div 3"
definition WORLD_CELLS_Y :: int where "WORLD_CELLS_Y = (30 * 5280) div 3"

definition CHUNK_SIZE :: nat where "CHUNK_SIZE = 64"
definition CHUNK_CELLS :: nat where "CHUNK_CELLS = CHUNK_SIZE * CHUNK_SIZE"

definition TAG_COAST :: int where "TAG_COAST = 1"
definition TAG_BEACH :: int where "TAG_BEACH = 2"
definition TAG_FOREST :: int where "TAG_FOREST = 4"
definition TAG_MARSH :: int where "TAG_MARSH = 8"
definition TAG_HILL :: int where "TAG_HILL = 16"
definition TAG_RIVER :: int where "TAG_RIVER = 32"
definition TAG_FIELD :: int where "TAG_FIELD = 64"
definition TAG_SETTLE :: int where "TAG_SETTLE = 128"

definition RES_FISH :: int where "RES_FISH = 0"
definition RES_GRAIN :: int where "RES_GRAIN = 1"
definition RES_WOOD :: int where "RES_WOOD = 2"
definition RES_CLAY :: int where "RES_CLAY = 3"
definition RES_COPPER :: int where "RES_COPPER = 4"
definition RES_TIN :: int where "RES_TIN = 5"
definition RES_FIRE :: int where "RES_FIRE = 6"
definition RES_PLANT_FIBER :: int where "RES_PLANT_FIBER = 7"
definition RES_CATTLE :: int where "RES_CATTLE = 8"
definition RES_SHEEP :: int where "RES_SHEEP = 9"
definition RES_PIG :: int where "RES_PIG = 10"
definition RES_CHARCOAL :: int where "RES_CHARCOAL = 11"
definition RES_RELIGION :: int where "RES_RELIGION = 12"
definition RES_TRIBALISM :: int where "RES_TRIBALISM = 13"
definition RES_MAX :: nat where "RES_MAX = 14"

lemmas RES_defs = RES_FISH_def RES_GRAIN_def RES_WOOD_def RES_CLAY_def RES_COPPER_def
  RES_TIN_def RES_FIRE_def RES_PLANT_FIBER_def RES_CATTLE_def RES_SHEEP_def RES_PIG_def
  RES_CHARCOAL_def RES_RELIGION_def RES_TRIBALISM_def

definition ITEM_FISH :: nat where "ITEM_FISH = 0"
definition ITEM_GRAIN :: nat where "ITEM_GRAIN = 1"
definition ITEM_WOOD :: nat where "ITEM_WOOD = 2"
definition ITEM_CLAY :: nat where "ITEM_CLAY = 3"
definition ITEM_COPPER :: nat where "ITEM_COPPER = 4"
definition ITEM_TIN :: nat where "ITEM_TIN = 5"
definition ITEM_BRONZE :: nat where "ITEM_BRONZE = 6"
definition ITEM_TOOL :: nat where "ITEM_TOOL = 7"
definition ITEM_POT :: nat where "ITEM_POT = 8"
definition ITEM_MAX :: nat where "ITEM_MAX = 9"

lemmas ITEM_defs = ITEM_FISH_def ITEM_GRAIN_def ITEM_WOOD_def ITEM_CLAY_def ITEM_COPPER_def
  ITEM_TIN_def ITEM_BRONZE_def ITEM_TOOL_def ITEM_POT_def ITEM_MAX_def

definition SEASON_SPRING :: int where "SEASON_SPRING = 0"
definition SEASON_SUMMER :: int where "SEASON_SUMMER = 1"
definition SEASON_AUTUMN :: int where "SEASON_AUTUMN = 2"
definition SEASON_WINTER :: int where "SEASON_WINTER = 3"
definition SEASON_ANY :: int where "SEASON_ANY = 255"

lemmas SEASON_defs = SEASON_SPRING_def SEASON_SUMMER_def SEASON_AUTUMN_def SEASON_WINTER_def
  SEASON_ANY_def

definition CMP_ANY :: int where "CMP_ANY = 0"
definition CMP_GT :: int where "CMP_GT = 1"
definition CMP_LT :: int where "CMP_LT = 2"
definition CMP_GE :: int where "CMP_GE = 3"
definition CMP_LE :: int where "CMP_LE = 4"

lemmas CMP_defs = CMP_ANY_def CMP_GT_def CMP_LT_def CMP_GE_def CMP_LE_def

definition OP_MOVE_TO :: int where "OP_MOVE_TO = 0"
definition OP_GATHER :: int where "OP_GATHER = 1"
definition OP_CRAFT :: int where "OP_CRAFT = 2"
definition OP_TRADE :: int where "OP_TRADE = 3"
definition OP_REST :: int where "OP_REST = 4"
definition OP_ROAM :: int where "OP_ROAM = 5"


subsection \<open>Deterministic hashing and the positional random stream\<close>

definition MASK64 :: int where "MASK64 = 2 ^ 64 - 1"
definition MASK32 :: int where "MASK32 = 2 ^ 32 - 1"

definition brz_splitmix64 :: "int \<Rightarrow> int" where
  "brz_splitmix64 x0 =
     (let x1 = (x0 + 0x9e3779b97f4a7c15) AND MASK64;
          x2 = ((x1 XOR drop_bit 30 x1) * 0xbf58476d1ce4e5b9) AND MASK64;
          x3 = ((x2 XOR drop_bit 27 x2) * 0x94d049bb133111eb) AND MASK64
      in (x3 XOR drop_bit 31 x3) AND MASK64)"

definition brz_hash_u32 :: "int \<Rightarrow> int \<Rightarrow> int \<Rightarrow> int" where
  "brz_hash_u32 a b c =
     (let x = push_bit 32 (a AND MASK32) XOR (b AND MASK32) XOR push_bit 16 (c AND MASK32)
      in brz_splitmix64 x AND MASK32)"

definition rng_u32 :: "int \<Rightarrow> int \<Rightarrow> int \<Rightarrow> int \<Rightarrow> int" where
  "rng_u32 sd a b c = brz_hash_u32 ((a XOR sd) AND MASK32) (b AND MASK32) (c AND MASK32)"

definition rng_f01 :: "int \<Rightarrow> int \<Rightarrow> int \<Rightarrow> int \<Rightarrow> real" where
  "rng_f01 sd a b c = real_of_int (rng_u32 sd a b c AND 0xFFFFFF) / real_of_int 0x1000000"

definition clamp_i32 :: "int \<Rightarrow> int \<Rightarrow> int \<Rightarrow> int" where
  "clamp_i32 v lo hi = (if v < lo then lo else if v > hi then hi else v)"

definition clamp_u8 :: "int \<Rightarrow> int" where
  "clamp_u8 v = (if v < 0 then 0 else if v > 255 then 255 else v)"

subsection \<open>DSL runtime structures\<close>

record Condition =
  has_hunger :: bool
  hunger_threshold :: real
  has_fatigue :: bool
  fatigue_threshold :: real
  season_eq :: int
  inv_item :: "int list"
  inv_cmp :: "int list"
  inv_value :: "int list"
  has_prob :: bool
  prob :: real

definition Condition0 :: Condition where
  "Condition0 = \<lparr> has_hunger = False, hunger_threshold = 0, has_fatigue = False,
     fatigue_threshold = 0, season_eq = SEASON_ANY, inv_item = [], inv_cmp = [],
     inv_value = [], has_prob = False, prob = 0 \<rparr>"

record OpDef =
  kind :: int
  arg_i :: int
  arg_j :: int

record TaskDef =
  tname :: string
  ops :: "OpDef list"

record RuleDef =
  rname :: string
  cond :: Condition
  task_name :: string
  weight :: int

record VocationDef =
  vname :: string
  tasks :: "TaskDef list"
  rules :: "RuleDef list"

type_synonym VocationTable = "VocationDef list"

text \<open>\<open>VocationTable.find\<close>: the index of the first vocation of that name, or \<open>-1\<close>.\<close>

fun voc_find_from :: "int \<Rightarrow> VocationDef list \<Rightarrow> string \<Rightarrow> int" where
  "voc_find_from i [] nm = -1"
| "voc_find_from i (v # vs) nm = (if vname v = nm then i else voc_find_from (i + 1) vs nm)"

definition voc_find :: "VocationTable \<Rightarrow> string \<Rightarrow> int" where
  "voc_find vt nm = voc_find_from 0 vt nm"

definition voc_get :: "VocationTable \<Rightarrow> int \<Rightarrow> VocationDef option" where
  "voc_get vt vid = (if 0 \<le> vid \<and> vid < int (length vt) then Some (vt ! nat vid) else None)"

subsection \<open>Identifier helpers of the parser\<close>

text \<open>
  \<open>str.lower()\<close> on the letters that matter here: the 26 ASCII capitals are mapped to
  their small letters, every other character of the 8-bit \<open>char\<close> type is left alone.
  (No character outside ASCII lower-cases to a letter of a season name, so the
  result of \<open>season_parse\<close> does not depend on how those are treated.)
\<close>

definition lower_char :: "char \<Rightarrow> char" where
  "lower_char c =
     (case map_of (zip ''ABCDEFGHIJKLMNOPQRSTUVWXYZ'' ''abcdefghijklmnopqrstuvwxyz'') c of
        Some d \<Rightarrow> d | None \<Rightarrow> c)"

definition lower :: "string \<Rightarrow> string" where
  "lower s = map lower_char s"

definition season_parse :: "string \<Rightarrow> int" where
  "season_parse s =
     (let ss = lower s in
      if ss = ''spring'' then SEASON_SPRING
      else if ss = ''summer'' then SEASON_SUMMER
      else if ss = ''autumn'' \<or> ss = ''fall'' then SEASON_AUTUMN
      else if ss = ''winter'' then SEASON_WINTER
      else if ss = ''any'' then SEASON_ANY
      else SEASON_ANY)"

definition parse_cmp :: "string \<Rightarrow> int" where
  "parse_cmp s =
     (if s = ''>'' then CMP_GT
      else if s = ''<'' then CMP_LT
      else if s = ''>='' then CMP_GE
      else if s = ''<='' then CMP_LE
      else CMP_ANY)"

definition ITEM_MAP :: "string \<rightharpoonup> int" where
  "ITEM_MAP = map_of
     [(''fish'', 0), (''grain'', 1), (''wood'', 2), (''clay'', 3), (''copper'', 4),
      (''tin'', 5), (''bronze'', 6), (''tool'', 7), (''pot'', 8)]"

definition RESOURCE_MAP :: "string \<rightharpoonup> int" where
  "RESOURCE_MAP = map_of
     [(''fish'', 0), (''grain'', 1), (''wood'', 2), (''clay'', 3), (''copper'', 4),
      (''tin'', 5), (''fire'', 6), (''plant_fiber'', 7), (''cattle'', 8), (''sheep'', 9),
      (''pig'', 10), (''charcoal'', 11), (''religion'', 12), (''tribalism'', 13)]"

definition TAG_MAP :: "string \<rightharpoonup> int" where
  "TAG_MAP = map_of
     [(''coast'', 1), (''beach'', 2), (''forest'', 4), (''marsh'', 8), (''hill'', 16),
      (''river'', 32), (''field'', 64), (''settle'', 128), (''settlement'', 128)]"

subsection \<open>The token stream\<close>

text \<open>
  The parser only ever calls \<open>Lexer.next_tok\<close> and \<open>Lexer.expect\<close>. The lexer is
  modelled by the list of the tokens still to come: \<open>next_tok\<close> pops the first one and
  keeps returning \<open>TK_EOF\<close> once the list is empty. A raised \<open>ValueError\<close> is \<open>None\<close>.
\<close>

datatype Tok = TK_EOF | TK_WORD string | TK_LBRACE | TK_RBRACE

fun next_tok :: "Tok list \<Rightarrow> Tok \<times> Tok list" where
  "next_tok [] = (TK_EOF, [])"
| "next_tok (t # ts) = (t, ts)"

definition expect_word :: "Tok list \<Rightarrow> (string \<times> Tok list) option" where
  "expect_word lx = (case next_tok lx of (TK_WORD s, lx') \<Rightarrow> Some (s, lx') | _ \<Rightarrow> None)"

definition expect_lbrace :: "Tok list \<Rightarrow> Tok list option" where
  "expect_lbrace lx = (case next_tok lx of (TK_LBRACE, lx') \<Rightarrow> Some lx' | _ \<Rightarrow> None)"

lemma next_tok_length: "next_tok lx = (t, lx') \<Longrightarrow> length lx' \<le> length lx"
  by (cases lx) auto

lemma next_tok_length_less: "next_tok lx = (t, lx') \<Longrightarrow> t \<noteq> TK_EOF \<Longrightarrow> length lx' < length lx"
  by (cases lx) auto

lemma expect_word_length: "expect_word lx = Some (s, lx') \<Longrightarrow> length lx' < length lx"
  by (cases lx) (auto simp: expect_word_def split: Tok.splits)

lemma expect_lbrace_length: "expect_lbrace lx = Some lx' \<Longrightarrow> length lx' < length lx"
  by (cases lx) (auto simp: expect_lbrace_def split: Tok.splits)

subsection \<open>Parsing conditions\<close>

definition parse_clause ::
  "(string \<Rightarrow> real option) \<Rightarrow> (string \<Rightarrow> int option) \<Rightarrow> Condition \<Rightarrow> string \<Rightarrow> Tok list
     \<Rightarrow> (Condition \<times> Tok list) option" where
  "parse_clause to_f32 to_i32 c a lx =
     (if a = ''hunger'' then do {
        (op, lx) \<leftarrow> expect_word lx;
        (vs, lx) \<leftarrow> expect_word lx;
        v \<leftarrow> to_f32 vs;
        if op \<noteq> ''>'' then None
        else Some (c\<lparr>has_hunger := True, hunger_threshold := v\<rparr>, lx) }
      else if a = ''fatigue'' then do {
        (op, lx) \<leftarrow> expect_word lx;
        (vs, lx) \<leftarrow> expect_word lx;
        v \<leftarrow> to_f32 vs;
        if op \<noteq> ''<'' then None
        else Some (c\<lparr>has_fatigue := True, fatigue_threshold := v\<rparr>, lx) }
      else if a = ''season'' then do {
        (op, lx) \<leftarrow> expect_word lx;
        (v, lx) \<leftarrow> expect_word lx;
        if op \<noteq> ''=='' then None
        else Some (c\<lparr>season_eq := season_parse v\<rparr>, lx) }
      else if a = ''inv'' then do {
        (item, lx) \<leftarrow> expect_word lx;
        (op, lx) \<leftarrow> expect_word lx;
        (vs, lx) \<leftarrow> expect_word lx;
        v \<leftarrow> to_i32 vs;
        (case ITEM_MAP item of
           None \<Rightarrow> None
         | Some it \<Rightarrow>
             (let ck = parse_cmp op in
              if ck = CMP_ANY then None
              else if length (inv_item c) \<ge> 4 then None
              else Some (c\<lparr>inv_item := inv_item c @ [it], inv_cmp := inv_cmp c @ [ck],
                            inv_value := inv_value c @ [v]\<rparr>, lx))) }
      else if a = ''prob'' then do {
        (vs, lx) \<leftarrow> expect_word lx;
        v \<leftarrow> to_f32 vs;
        let v = (if v < 0 then 0 else v);
        let v = (if v > 1 then 1 else v);
        Some (c\<lparr>has_prob := True, prob := v\<rparr>, lx) }
      else None)"

lemma parse_clause_length:
  "parse_clause to_f32 to_i32 c a lx = Some (c', lx') \<Longrightarrow> length lx' < length lx"
  by (auto simp: parse_clause_def Let_def Option.bind_eq_Some_conv
      split: if_splits option.splits dest!: expect_word_length)

function parse_condition_loop ::
  "(string \<Rightarrow> real option) \<Rightarrow> (string \<Rightarrow> int option) \<Rightarrow> Condition \<Rightarrow> Tok list
     \<Rightarrow> (Condition \<times> Tok list) option" where
  "parse_condition_loop to_f32 to_i32 c lx =
     (case next_tok lx of
        (TK_WORD a, lx1) \<Rightarrow>
          (case parse_clause to_f32 to_i32 c a lx1 of
             None \<Rightarrow> None
           | Some (c', lx2) \<Rightarrow>
               (case next_tok lx2 of
                  (TK_WORD w, lx3) \<Rightarrow>
                    if w = ''and'' then parse_condition_loop to_f32 to_i32 c' lx3
                    else if w = ''do'' then Some (c', lx3)
                    else None
                | _ \<Rightarrow> None))
      | _ \<Rightarrow> None)"
  by pat_completeness auto
termination
proof (relation "measure (\<lambda>(f, i, c, lx). length lx)", goal_cases)
  case 1
  show ?case by simp
next
  case (2 to_f32 to_i32 c lx t lx1 a p c' lx2 t3 lx3 w)
  from 2 have "length lx1 \<le> length lx"
    by (metis next_tok_length)
  moreover from 2 have "length lx2 < length lx1"
    by (metis parse_clause_length)
  moreover from 2 have "length lx3 \<le> length lx2"
    by (metis next_tok_length)
  ultimately show ?case by simp
qed

definition parse_condition ::
  "(string \<Rightarrow> real option) \<Rightarrow> (string \<Rightarrow> int option) \<Rightarrow> Tok list
     \<Rightarrow> (Condition \<times> Tok list) option" where
  "parse_condition to_f32 to_i32 lx = parse_condition_loop to_f32 to_i32 Condition0 lx"

declare parse_condition_loop.simps [simp del]

subsection \<open>Parsing tasks and rules\<close>

definition parse_op :: "(string \<Rightarrow> int option) \<Rightarrow> string \<Rightarrow> Tok list \<Rightarrow> (OpDef \<times> Tok list) option" where
  "parse_op to_i32 w lx =
     (if w = ''move_to'' then do {
        (tag, lx) \<leftarrow> expect_word lx;
        (case TAG_MAP tag of
           None \<Rightarrow> None
         | Some tg \<Rightarrow> Some (\<lparr>kind = OP_MOVE_TO, arg_i = 0, arg_j = tg\<rparr>, lx)) }
      else if w = ''gather'' then do {
        (res, lx) \<leftarrow> expect_word lx;
        (vs, lx) \<leftarrow> expect_word lx;
        amt \<leftarrow> to_i32 vs;
        (case RESOURCE_MAP res of
           None \<Rightarrow> None
         | Some rk \<Rightarrow> Some (\<lparr>kind = OP_GATHER, arg_i = amt, arg_j = rk\<rparr>, lx)) }
      else if w = ''craft'' then do {
        (item, lx) \<leftarrow> expect_word lx;
        (vs, lx) \<leftarrow> expect_word lx;
        amt \<leftarrow> to_i32 vs;
        (case ITEM_MAP item of
           None \<Rightarrow> None
         | Some it \<Rightarrow> Some (\<lparr>kind = OP_CRAFT, arg_i = amt, arg_j = it\<rparr>, lx)) }
      else if w = ''trade'' then Some (\<lparr>kind = OP_TRADE, arg_i = 0, arg_j = 0\<rparr>, lx)
      else if w = ''rest'' then Some (\<lparr>kind = OP_REST, arg_i = 0, arg_j = 0\<rparr>, lx)
      else if w = ''roam'' then do {
        (vs, lx) \<leftarrow> expect_word lx;
        steps \<leftarrow> to_i32 vs;
        Some (\<lparr>kind = OP_ROAM, arg_i = steps, arg_j = 0\<rparr>, lx) }
      else None)"

lemma parse_op_length: "parse_op to_i32 w lx = Some (op, lx') \<Longrightarrow> length lx' \<le> length lx"
  by (auto simp: parse_op_def Option.bind_eq_Some_conv
      split: if_splits option.splits dest!: expect_word_length)

function parse_task_ops ::
  "(string \<Rightarrow> int option) \<Rightarrow> OpDef list \<Rightarrow> Tok list \<Rightarrow> (OpDef list \<times> Tok list) option" where
  "parse_task_ops to_i32 acc lx =
     (case next_tok lx of
        (TK_RBRACE, lx1) \<Rightarrow> Some (acc, lx1)
      | (TK_WORD w, lx1) \<Rightarrow>
          (case parse_op to_i32 w lx1 of
             None \<Rightarrow> None
           | Some (op, lx2) \<Rightarrow> parse_task_ops to_i32 (acc @ [op]) lx2)
      | _ \<Rightarrow> None)"
  by pat_completeness auto
termination
proof (relation "measure (\<lambda>(i, acc, lx). length lx)", goal_cases)
  case 1
  show ?case by simp
next
  case (2 to_i32 acc lx t lx1 w p op lx2)
  from 2 have "length lx1 < length lx"
    by (metis next_tok_length_less Tok.distinct(1))
  moreover from 2 have "length lx2 \<le> length lx1"
    by (metis parse_op_length)
  ultimately show ?case by simp
qed

declare parse_task_ops.simps [simp del]

lemma parse_task_ops_length:
  "parse_task_ops to_i32 acc lx = Some (os, lx') \<Longrightarrow> length lx' < length lx"
proof (induction to_i32 acc lx rule: parse_task_ops.induct)
  case (1 to_i32 acc lx)
  obtain t lx1 where nt: "next_tok lx = (t, lx1)" by (cases "next_tok lx")
  show ?case
  proof (cases t)
    case TK_RBRACE
    with nt "1.prems" have "lx' = lx1" by (simp add: parse_task_ops.simps [of _ _ lx])
    with nt TK_RBRACE show ?thesis by (metis next_tok_length_less Tok.distinct(5))
  next
    case (TK_WORD w)
    with nt "1.prems" obtain op lx2 where
      po: "parse_op to_i32 w lx1 = Some (op, lx2)" and
      rec: "parse_task_ops to_i32 (acc @ [op]) lx2 = Some (os, lx')"
      by (auto simp: parse_task_ops.simps [of _ _ lx] split: option.splits)
    from "1.IH" nt TK_WORD po rec have "length lx' < length lx2" by auto
    moreover from po have "length lx2 \<le> length lx1" by (rule parse_op_length)
    moreover from nt have "length lx1 \<le> length lx" by (rule next_tok_length)
    ultimately show ?thesis by simp
  qed (use nt "1.prems" in \<open>simp_all add: parse_task_ops.simps [of _ _ lx]\<close>)
qed

definition parse_task ::
  "(string \<Rightarrow> int option) \<Rightarrow> VocationDef \<Rightarrow> Tok list \<Rightarrow> (VocationDef \<times> Tok list) option" where
  "parse_task to_i32 voc lx = do {
     (nm, lx) \<leftarrow> expect_word lx;
     lx \<leftarrow> expect_lbrace lx;
     (os, lx) \<leftarrow> parse_task_ops to_i32 [] lx;
     Some (voc\<lparr>tasks := tasks voc @ [\<lparr>tname = nm, ops = os\<rparr>]\<rparr>, lx) }"

definition parse_rule ::
  "(string \<Rightarrow> real option) \<Rightarrow> (string \<Rightarrow> int option) \<Rightarrow> VocationDef \<Rightarrow> Tok list
     \<Rightarrow> (VocationDef \<times> Tok list) option" where
  "parse_rule to_f32 to_i32 voc lx = do {
     (nm, lx) \<leftarrow> expect_word lx;
     lx \<leftarrow> expect_lbrace lx;
     (when, lx) \<leftarrow> expect_word lx;
     if when \<noteq> ''when'' then None else do {
       (cnd, lx) \<leftarrow> parse_condition to_f32 to_i32 lx;
       (tn, lx) \<leftarrow> expect_word lx;
       (weight_kw, lx) \<leftarrow> expect_word lx;
       if weight_kw \<noteq> ''weight'' then None else do {
         (ws, lx) \<leftarrow> expect_word lx;
         w \<leftarrow> to_i32 ws;
         (cnd, maybe, lx) \<leftarrow>
           (case next_tok lx of
              (TK_WORD m, lx1) \<Rightarrow>
                if m = ''prob'' then do {
                  (ps, lx2) \<leftarrow> expect_word lx1;
                  pv \<leftarrow> to_f32 ps;
                  let pv = max 0 (min 1 pv);
                  (case next_tok lx2 of (maybe, lx3) \<Rightarrow>
                     Some (cnd\<lparr>has_prob := True, prob := pv\<rparr>, maybe, lx3)) }
                else Some (cnd, TK_WORD m, lx1)
            | (maybe, lx1) \<Rightarrow> Some (cnd, maybe, lx1));
         if maybe \<noteq> TK_RBRACE then None
         else Some (voc\<lparr>rules := rules voc @
                      [\<lparr>rname = nm, cond = cnd, task_name = tn, weight = w\<rparr>]\<rparr>, lx) } } }"

lemma parse_task_length:
  "parse_task to_i32 voc lx = Some (voc', lx') \<Longrightarrow> length lx' < length lx"
  by (auto simp: parse_task_def Option.bind_eq_Some_conv
      dest!: expect_word_length expect_lbrace_length parse_task_ops_length)

lemma parse_condition_loop_length:
  "parse_condition_loop to_f32 to_i32 c lx = Some (c', lx') \<Longrightarrow> length lx' < length lx"
proof (induction to_f32 to_i32 c lx rule: parse_condition_loop.induct)
  case (1 to_f32 to_i32 c lx)
  from "1.prems" obtain a lx1 c1 lx2 w lx3 where
    nt: "next_tok lx = (TK_WORD a, lx1)" and
    pc: "parse_clause to_f32 to_i32 c a lx1 = Some (c1, lx2)" and
    nt2: "next_tok lx2 = (TK_WORD w, lx3)" and
    res: "if w = ''and'' then parse_condition_loop to_f32 to_i32 c1 lx3 = Some (c', lx')
          else w = ''do'' \<and> c' = c1 \<and> lx' = lx3"
    by (auto simp: parse_condition_loop.simps [of _ _ _ lx]
        split: prod.splits Tok.splits option.splits if_splits)
  have l1: "length lx1 \<le> length lx" using nt by (rule next_tok_length)
  have l2: "length lx2 < length lx1" using pc by (rule parse_clause_length)
  have l3: "length lx3 \<le> length lx2" using nt2 by (rule next_tok_length)
  show ?case
  proof (cases "w = ''and''")
    case True
    with res have "parse_condition_loop to_f32 to_i32 c1 lx3 = Some (c', lx')" by simp
    with "1.IH" nt pc nt2 True have "length lx' < length lx3" by auto
    with l1 l2 l3 show ?thesis by simp
  next
    case False
    with res l1 l2 l3 show ?thesis by simp
  qed
qed

lemma parse_rule_length:
  "parse_rule to_f32 to_i32 voc lx = Some (voc', lx') \<Longrightarrow> length lx' < length lx"
  by (auto simp: parse_rule_def parse_condition_def Option.bind_eq_Some_conv Let_def
      split: if_splits Tok.splits prod.splits
      dest!: expect_word_length expect_lbrace_length parse_condition_loop_length
             next_tok_length)

subsection \<open>Parsing a vocations block\<close>

function skip_block :: "int \<Rightarrow> Tok list \<Rightarrow> Tok list" where
  "skip_block depth lx =
     (if depth > 0 then
        (case next_tok lx of
           (TK_EOF, lx1) \<Rightarrow> lx1
         | (TK_LBRACE, lx1) \<Rightarrow> skip_block (depth + 1) lx1
         | (TK_RBRACE, lx1) \<Rightarrow> skip_block (depth - 1) lx1
         | (TK_WORD w, lx1) \<Rightarrow> skip_block depth lx1)
      else lx)"
  by pat_completeness auto
termination
  by (relation "measure (\<lambda>(d, lx). length lx)")
     (auto dest!: sym [of _ "next_tok _"] dest: next_tok_length_less)

declare skip_block.simps [simp del]

lemma skip_block_length: "length (skip_block depth lx) \<le> length lx"
proof (induction depth lx rule: skip_block.induct)
  case (1 depth lx)
  obtain t lx1 where nt: "next_tok lx = (t, lx1)" by (cases "next_tok lx")
  then have l1: "length lx1 \<le> length lx" by (rule next_tok_length)
  show ?case
  proof (cases "depth > 0")
    case True
    with "1.IH" nt l1 show ?thesis
      by (cases t) (auto simp: skip_block.simps [of depth lx] intro: order_trans)
  next
    case False
    then show ?thesis by (simp add: skip_block.simps [of depth lx])
  qed
qed

text \<open>
  The post-fix of a vocation's rules (the last lines of the loop body of
  \<open>parse_vocations_block\<close>). \<open>task_names\<close> is computed once, before the loop; the loop
  may append the synthesized \<open>idle\<close> task to \<open>voc.tasks\<close>.
\<close>

definition idle_task :: TaskDef where
  "idle_task = \<lparr>tname = ''idle'', ops = [\<lparr>kind = OP_REST, arg_i = 0, arg_j = 0\<rparr>]\<rparr>"

fun postfix_loop :: "string list \<Rightarrow> TaskDef list \<Rightarrow> RuleDef list \<Rightarrow> TaskDef list \<times> RuleDef list" where
  "postfix_loop task_names ts [] = (ts, [])"
| "postfix_loop task_names ts (r # rs) =
     (if task_name r \<notin> set task_names then
        (if ts \<noteq> [] then
           (case postfix_loop task_names ts rs of
              (ts', rs') \<Rightarrow> (ts', r\<lparr>task_name := tname (hd ts)\<rparr> # rs'))
         else
           (case postfix_loop task_names (ts @ [idle_task]) rs of
              (ts', rs') \<Rightarrow> (ts', r\<lparr>task_name := ''idle''\<rparr> # rs')))
      else
        (case postfix_loop task_names ts rs of (ts', rs') \<Rightarrow> (ts', r # rs')))"

definition postfix_rules :: "VocationDef \<Rightarrow> VocationDef" where
  "postfix_rules voc =
     (let task_names = map tname (tasks voc) in
      if rules voc \<noteq> [] then
        (case postfix_loop task_names (tasks voc) (rules voc) of
           (ts', rs') \<Rightarrow> voc\<lparr>tasks := ts', rules := rs'\<rparr>)
      else voc)"

function parse_vocation_body ::
  "(string \<Rightarrow> real option) \<Rightarrow> (string \<Rightarrow> int option) \<Rightarrow> VocationDef \<Rightarrow> Tok list
     \<Rightarrow> (VocationDef \<times> Tok list) option" where
  "parse_vocation_body to_f32 to_i32 voc lx =
     (case next_tok lx of
        (TK_RBRACE, lx1) \<Rightarrow> Some (voc, lx1)
      | (TK_WORD k, lx1) \<Rightarrow>
          if k = ''task'' then
            (case parse_task to_i32 voc lx1 of
               None \<Rightarrow> None
             | Some (voc', lx2) \<Rightarrow> parse_vocation_body to_f32 to_i32 voc' lx2)
          else if k = ''rule'' then
            (case parse_rule to_f32 to_i32 voc lx1 of
               None \<Rightarrow> None
             | Some (voc', lx2) \<Rightarrow> parse_vocation_body to_f32 to_i32 voc' lx2)
          else
            (case next_tok lx1 of
               (TK_LBRACE, lx2) \<Rightarrow> parse_vocation_body to_f32 to_i32 voc (skip_block 1 lx2)
             | (_, lx2) \<Rightarrow> parse_vocation_body to_f32 to_i32 voc lx2)
      | _ \<Rightarrow> None)"
  by pat_completeness auto
termination
proof (relation "measure (\<lambda>(f, i, voc, lx). length lx)", goal_cases)
  case 1
  show ?case by simp
next
  case (2 to_f32 to_i32 voc lx t lx1 k p voc' lx2)
  then have "length lx1 \<le> length lx" "length lx2 < length lx1"
    by (metis next_tok_length, metis parse_task_length)
  then show ?case by simp
next
  case (3 to_f32 to_i32 voc lx t lx1 k p voc' lx2)
  then have "length lx1 \<le> length lx" "length lx2 < length lx1"
    by (metis next_tok_length, metis parse_rule_length)
  then show ?case by simp
next
  case (4 to_f32 to_i32 voc lx t lx1 k t2 lx2)
  then have "length lx1 < length lx"
    by (metis next_tok_length_less Tok.distinct(1))
  moreover from 4 have "length lx2 \<le> length lx1"
    by (metis next_tok_length)
  ultimately show ?case by simp
next
  case (5 to_f32 to_i32 voc lx t lx1 k t2 lx2 w)
  then have "length lx1 < length lx"
    by (metis next_tok_length_less Tok.distinct(1))
  moreover from 5 have "length lx2 \<le> length lx1"
    by (metis next_tok_length)
  ultimately show ?case by simp
next
  case (6 to_f32 to_i32 voc lx t lx1 k t2 lx2)
  then have "length lx1 < length lx"
    by (metis next_tok_length_less Tok.distinct(1))
  moreover from 6 have "length lx2 \<le> length lx1"
    by (metis next_tok_length)
  moreover have "length (skip_block 1 lx2) \<le> length lx2"
    by (rule skip_block_length)
  ultimately show ?case by simp
next
  case (7 to_f32 to_i32 voc lx t lx1 k t2 lx2)
  then have "length lx1 < length lx"
    by (metis next_tok_length_less Tok.distinct(1))
  moreover from 7 have "length lx2 \<le> length lx1"
    by (metis next_tok_length)
  ultimately show ?case by simp
qed

declare parse_vocation_body.simps [simp del]

lemma parse_vocation_body_length:
  "parse_vocation_body to_f32 to_i32 voc lx = Some (voc', lx') \<Longrightarrow> length lx' < length lx"
proof (induction to_f32 to_i32 voc lx rule: parse_vocation_body.induct)
  case (1 to_f32 to_i32 voc lx)
  obtain t lx1 where nt: "next_tok lx = (t, lx1)" by (cases "next_tok lx")
  note unf = parse_vocation_body.simps [of to_f32 to_i32 voc lx]
  show ?case
  proof (cases t)
    case TK_RBRACE
    with nt "1.prems" have "lx' = lx1" by (simp add: unf)
    with nt TK_RBRACE show ?thesis by (metis next_tok_length_less Tok.distinct(5))
  next
    case (TK_WORD k)
    with nt have l1: "length lx1 < length lx" by (metis next_tok_length_less Tok.distinct(1))
    consider (task) "k = ''task''" | (rule) "k \<noteq> ''task''" "k = ''rule''"
      | (other) "k \<noteq> ''task''" "k \<noteq> ''rule''" by blast
    then show ?thesis
    proof cases
      case task
      with nt TK_WORD "1.prems" obtain voc1 lx2 where
        pt: "parse_task to_i32 voc lx1 = Some (voc1, lx2)" and
        rec: "parse_vocation_body to_f32 to_i32 voc1 lx2 = Some (voc', lx')"
        by (auto simp: unf split: option.splits)
      from "1.IH"(1) nt TK_WORD task pt rec have "length lx' < length lx2" by auto
      moreover from pt have "length lx2 < length lx1" by (rule parse_task_length)
      ultimately show ?thesis using l1 by simp
    next
      case rule
      with nt TK_WORD "1.prems" obtain voc1 lx2 where
        pt: "parse_rule to_f32 to_i32 voc lx1 = Some (voc1, lx2)" and
        rec: "parse_vocation_body to_f32 to_i32 voc1 lx2 = Some (voc', lx')"
        by (auto simp: unf split: option.splits)
      from "1.IH"(2) nt TK_WORD rule pt rec have "length lx' < length lx2" by auto
      moreover from pt have "length lx2 < length lx1" by (rule parse_rule_length)
      ultimately show ?thesis using l1 by simp
    next
      case other
      obtain t2 lx2 where nt2: "next_tok lx1 = (t2, lx2)" by (cases "next_tok lx1")
      then have l2: "length lx2 \<le> length lx1" by (rule next_tok_length)
      show ?thesis
      proof (cases "t2 = TK_LBRACE")
        case True
        with nt TK_WORD other nt2 "1.prems"
        have rec: "parse_vocation_body to_f32 to_i32 voc (skip_block 1 lx2) = Some (voc', lx')"
          by (simp add: unf)
        from "1.IH"(5) nt TK_WORD other nt2 True rec
        have "length lx' < length (skip_block 1 lx2)" by auto
        moreover have "length (skip_block 1 lx2) \<le> length lx2" by (rule skip_block_length)
        ultimately show ?thesis using l1 l2 by simp
      next
        case False
        with nt TK_WORD other nt2 "1.prems"
        have rec: "parse_vocation_body to_f32 to_i32 voc lx2 = Some (voc', lx')"
          by (cases t2) (simp_all add: unf)
        from "1.IH"(3,4,6) nt TK_WORD other nt2 False rec
        have "length lx' < length lx2" by (cases t2) auto
        then show ?thesis using l1 l2 by simp
      qed
    qed
  qed (use nt "1.prems" in \<open>simp_all add: unf\<close>)
qed

definition VocationDef0 :: "string \<Rightarrow> VocationDef" where
  "VocationDef0 nm = \<lparr>vname = nm, tasks = [], rules = []\<rparr>"

function parse_vocations_loop ::
  "(string \<Rightarrow> real option) \<Rightarrow> (string \<Rightarrow> int option) \<Rightarrow> VocationTable \<Rightarrow> Tok list
     \<Rightarrow> (VocationTable \<times> Tok list) option" where
  "parse_vocations_loop to_f32 to_i32 vt lx =
     (case next_tok lx of
        (TK_RBRACE, lx1) \<Rightarrow> Some (vt, lx1)
      | (TK_WORD w, lx1) \<Rightarrow>
          if w \<noteq> ''vocation'' then None
          else
            (case expect_word lx1 of
               None \<Rightarrow> None
             | Some (nm, lx2) \<Rightarrow>
                 (case expect_lbrace lx2 of
                    None \<Rightarrow> None
                  | Some lx3 \<Rightarrow>
                      (case parse_vocation_body to_f32 to_i32 (VocationDef0 nm) lx3 of
                         None \<Rightarrow> None
                       | Some (voc, lx4) \<Rightarrow>
                           parse_vocations_loop to_f32 to_i32 (vt @ [postfix_rules voc]) lx4)))
      | _ \<Rightarrow> None)"
  by pat_completeness auto
termination
proof (relation "measure (\<lambda>(f, i, vt, lx). length lx)", goal_cases)
  case 1
  show ?case by simp
next
  case (2 to_f32 to_i32 vt lx t lx1 w p nm lx2 lx3 q voc lx4)
  then have "length lx1 \<le> length lx" "length lx2 < length lx1" "length lx3 < length lx2"
    "length lx4 < length lx3"
    by (metis next_tok_length, metis expect_word_length, metis expect_lbrace_length,
        metis parse_vocation_body_length)
  then show ?case by simp
qed

declare parse_vocations_loop.simps [simp del]

definition parse_vocations_block ::
  "(string \<Rightarrow> real option) \<Rightarrow> (string \<Rightarrow> int option) \<Rightarrow> VocationTable \<Rightarrow> Tok list
     \<Rightarrow> (VocationTable \<times> Tok list) option" where
  "parse_vocations_block to_f32 to_i32 vt lx =
     (case expect_lbrace lx of
        None \<Rightarrow> None
      | Some lx1 \<Rightarrow> parse_vocations_loop to_f32 to_i32 vt lx1)"

subsection \<open>Procedural world generation\<close>

record ResourceModel =
  renew_per_day :: "real list"

record WorldSpec =
  ws_seed :: int
  settlement_count :: int
  res_model :: ResourceModel

record WorldGen =
  gen_seed :: int

definition worldgen_init :: "int \<Rightarrow> WorldGen" where
  "worldgen_init sd = \<lparr>gen_seed = sd\<rparr>"

definition noise01 :: "WorldGen \<Rightarrow> int \<Rightarrow> int \<Rightarrow> int \<Rightarrow> int" where
  "noise01 g x y salt =
     (let h = brz_hash_u32 (x AND MASK32) (y AND MASK32) ((gen_seed g XOR salt) AND MASK32)
      in h AND 0xFF)"

definition is_coast_cell :: "int \<Rightarrow> int \<Rightarrow> bool" where
  "is_coast_cell x y \<longleftrightarrow> x < 2 \<or> y < 2 \<or> x \<ge> WORLD_CELLS_X - 2 \<or> y \<ge> WORLD_CELLS_Y - 2"

text \<open>A Python test \<open>if tags & TAG:\<close> is \<open>has_tag tags TAG\<close>.\<close>

definition has_tag :: "int \<Rightarrow> int \<Rightarrow> bool" where
  "has_tag tags t \<longleftrightarrow> tags AND t \<noteq> 0"

definition world_cell_tags :: "WorldGen \<Rightarrow> int \<Rightarrow> int \<Rightarrow> int \<Rightarrow> int" where
  "world_cell_tags g x y settle_n =
     (let tags0 = 0;
          tags1 = (if is_coast_cell x y then tags0 OR TAG_COAST else tags0);
          tags2 = (if \<not> has_tag tags1 TAG_COAST then
                     (if x < 3 \<or> y < 3 \<or> x > WORLD_CELLS_X - 4 \<or> y > WORLD_CELLS_Y - 4 then
                        (if noise01 g x y 0xBEEF1234 < 140 then tags1 OR TAG_BEACH else tags1)
                      else tags1)
                   else tags1);
          n1 = noise01 g x y 0x1111A11A;
          n2 = noise01 g x y 0x2222B22B;
          n3 = noise01 g x y 0x3333C33C;
          tags3 = (if n1 > 150 then tags2 OR TAG_FOREST else tags2);
          tags4 = (if n2 > 200 then tags3 OR TAG_HILL else tags3);
          tags5 = (if n3 > 215 then tags4 OR TAG_MARSH else tags4);
          rv = noise01 g (x div 8) (y div 8) 0x52A17B3D;
          tags6 = (if rv > 245 then tags5 OR TAG_RIVER else tags5);
          sx = (x div 2000) * 2000 + 1000;
          sy = (y div 2000) * 2000 + 1000;
          sc = noise01 g sx sy 0x5E771EAD;
          dx = x - sx;
          dy = y - sy;
          d2 = dx * dx + dy * dy;
          tags7 = (if sc > 240 \<and> d2 < 70 * 70 then tags6 OR TAG_SETTLE else tags6);
          tags8 = (if sc > 240 \<and> d2 < 250 * 250 then tags7 OR TAG_FIELD else tags7)
      in tags8)"

definition world_cell_res0 :: "WorldGen \<Rightarrow> int \<Rightarrow> int \<Rightarrow> int \<Rightarrow> int \<Rightarrow> int" where
  "world_cell_res0 g x y rk tags =
     (let base = noise01 g x y 0x9999DDDD in
      if rk = RES_FISH then (if has_tag tags TAG_COAST then clamp_u8 (120 + base div 2) else 0)
      else if rk = RES_GRAIN then (if has_tag tags TAG_FIELD then clamp_u8 (80 + base div 3) else 0)
      else if rk = RES_WOOD then (if has_tag tags TAG_FOREST then clamp_u8 (90 + base div 3) else 0)
      else if rk = RES_CLAY then
        (if has_tag tags TAG_RIVER \<or> has_tag tags TAG_MARSH then clamp_u8 (60 + base div 4) else 0)
      else if rk = RES_COPPER then
        (if has_tag tags TAG_HILL then (if base > 240 then 40 else 5) else 0)
      else if rk = RES_TIN then
        (if has_tag tags TAG_HILL then (if base > 250 then 25 else 0) else 0)
      else if rk = RES_FIRE then (if has_tag tags TAG_SETTLE then clamp_u8 (180 + base div 4) else 0)
      else if rk = RES_PLANT_FIBER then
        (if has_tag tags TAG_MARSH \<or> has_tag tags TAG_FIELD then clamp_u8 (70 + base div 3) else 0)
      else if rk = RES_CATTLE then (if has_tag tags TAG_FIELD then clamp_u8 (40 + base div 4) else 0)
      else if rk = RES_SHEEP then (if has_tag tags TAG_FIELD then clamp_u8 (35 + base div 4) else 0)
      else if rk = RES_PIG then (if has_tag tags TAG_FIELD then clamp_u8 (30 + base div 4) else 0)
      else if rk = RES_CHARCOAL then
        (if has_tag tags TAG_FOREST then clamp_u8 (25 + base div 5) else 0)
      else if rk = RES_RELIGION then
        (if has_tag tags TAG_SETTLE then clamp_u8 (60 + base div 5) else 0)
      else if rk = RES_TRIBALISM then
        (if has_tag tags TAG_SETTLE then clamp_u8 (20 + base div 8) else 0)
      else 0)"

definition world_season_kind :: "int \<Rightarrow> int" where
  "world_season_kind dy =
     (let d = dy mod 360 in
      if d < 90 then SEASON_SPRING
      else if d < 180 then SEASON_SUMMER
      else if d < 270 then SEASON_AUTUMN
      else SEASON_WINTER)"

subsection \<open>Chunks and the LRU chunk cache\<close>

record Chunk =
  ch_cx :: int
  ch_cy :: int
  terrain :: "int list"
  res :: "int list list"

definition Chunk0 :: "int \<Rightarrow> int \<Rightarrow> Chunk" where
  "Chunk0 cx cy = \<lparr>ch_cx = cx, ch_cy = cy, terrain = replicate CHUNK_CELLS 0,
     res = replicate RES_MAX (replicate CHUNK_CELLS 0)\<rparr>"

text \<open>\<open>res[RK][idx] = v\<close> and \<open>res[RK][idx]\<close> for one of the resource constants \<open>RK\<close>.\<close>

definition set_res :: "Chunk \<Rightarrow> int \<Rightarrow> nat \<Rightarrow> int \<Rightarrow> Chunk" where
  "set_res ch rk idx v = ch\<lparr>res := (res ch)[nat rk := (res ch ! nat rk)[idx := v]]\<rparr>"

definition get_res :: "Chunk \<Rightarrow> int \<Rightarrow> nat \<Rightarrow> int" where
  "get_res ch rk idx = res ch ! nat rk ! idx"

text \<open>The body of the inner loop of \<open>ChunkCache._generate_chunk\<close>, for one cell.\<close>

definition generate_cell :: "WorldGen \<Rightarrow> int \<Rightarrow> int \<Rightarrow> int \<Rightarrow> nat \<Rightarrow> nat \<Rightarrow> Chunk \<Rightarrow> Chunk" where
  "generate_cell gen settle_n base_x base_y iy ix ch0 =
     (let wy = base_y + int iy;
          row_off = iy * CHUNK_SIZE;
          wx = base_x + int ix;
          idx = row_off + ix;
          tags = world_cell_tags gen wx wy settle_n;
          ch1 = ch0\<lparr>terrain := (terrain ch0)[idx := tags]\<rparr>;
          base = brz_hash_u32 (wx AND MASK32) (wy AND MASK32)
                   ((gen_seed gen XOR 0x9999DDDD) AND MASK32) AND 0xFF;
          ch2 = (if has_tag tags TAG_COAST
                 then set_res ch1 RES_FISH idx (clamp_u8 (120 + drop_bit 1 base)) else ch1);
          ch3 = (if has_tag tags TAG_FIELD then
                   (let c1 = set_res ch2 RES_GRAIN idx (clamp_u8 (80 + base div 3));
                        c2 = set_res c1 RES_PLANT_FIBER idx (clamp_u8 (70 + base div 3));
                        c3 = set_res c2 RES_CATTLE idx (clamp_u8 (40 + base div 4));
                        c4 = set_res c3 RES_SHEEP idx (clamp_u8 (35 + base div 4))
                    in set_res c4 RES_PIG idx (clamp_u8 (30 + base div 4)))
                 else ch2);
          ch4 = (if has_tag tags TAG_FOREST then
                   (let c1 = set_res ch3 RES_WOOD idx (clamp_u8 (90 + base div 3))
                    in set_res c1 RES_CHARCOAL idx (clamp_u8 (25 + base div 5)))
                 else ch3);
          ch5 = (if has_tag tags TAG_RIVER \<or> has_tag tags TAG_MARSH then
                   (let c1 = set_res ch4 RES_CLAY idx (clamp_u8 (60 + base div 4)) in
                    if has_tag tags TAG_MARSH then
                      (if get_res c1 RES_PLANT_FIBER idx = 0
                       then set_res c1 RES_PLANT_FIBER idx (clamp_u8 (70 + base div 3))
                       else c1)
                    else c1)
                 else ch4);
          ch6 = (if has_tag tags TAG_HILL then
                   (let c1 = set_res ch5 RES_COPPER idx (if base > 240 then 40 else 5)
                    in set_res c1 RES_TIN idx (if base > 250 then 25 else 0))
                 else ch5);
          ch7 = (if has_tag tags TAG_SETTLE then
                   (let c1 = set_res ch6 RES_FIRE idx (clamp_u8 (180 + base div 4));
                        c2 = set_res c1 RES_RELIGION idx (clamp_u8 (60 + base div 5))
                    in set_res c2 RES_TRIBALISM idx (clamp_u8 (20 + base div 8)))
                 else ch6)
      in ch7)"

record ChunkCache =
  max_chunks :: int
  cache_gen :: WorldGen
  cache_spec :: WorldSpec
  lru :: "((int \<times> int) \<times> Chunk) list"
  live_chunks :: int

definition ChunkCache_init :: "int \<Rightarrow> WorldGen \<Rightarrow> WorldSpec \<Rightarrow> ChunkCache" where
  "ChunkCache_init mx g spec =
     \<lparr>max_chunks = max 1 mx, cache_gen = g, cache_spec = spec, lru = [], live_chunks = 0\<rparr>"

definition generate_chunk :: "ChunkCache \<Rightarrow> int \<Rightarrow> int \<Rightarrow> Chunk" where
  "generate_chunk c cx cy =
     (let ch = Chunk0 cx cy;
          base_x = cx * int CHUNK_SIZE;
          base_y = cy * int CHUNK_SIZE;
          g = cache_gen c;
          settle_n = settlement_count (cache_spec c)
      in fold (\<lambda>iy ch. fold (\<lambda>ix ch. generate_cell g settle_n base_x base_y iy ix ch)
                 [0..<CHUNK_SIZE] ch)
           [0..<CHUNK_SIZE] ch)"

text \<open>
  The \<open>OrderedDict\<close> is an association list in insertion order, least recently used
  first: \<open>move_to_end(key)\<close> removes the entry and appends it, an assignment to a key
  that is absent appends, \<open>popitem(last=False)\<close> drops the head.
\<close>

definition get_chunk :: "ChunkCache \<Rightarrow> int \<Rightarrow> int \<Rightarrow> Chunk \<times> ChunkCache" where
  "get_chunk c cx cy =
     (let key = (cx, cy) in
      case map_of (lru c) key of
        Some ch \<Rightarrow> (ch, c\<lparr>lru := filter (\<lambda>kv. fst kv \<noteq> key) (lru c) @ [(key, ch)]\<rparr>)
      | None \<Rightarrow>
          (let ch = generate_chunk c cx cy;
               l1 = lru c @ [(key, ch)];
               l2 = (if int (length l1) > max_chunks c then tl l1 else l1)
           in (ch, c\<lparr>lru := l2, live_chunks := int (length l2)\<rparr>)))"

definition get_cell :: "ChunkCache \<Rightarrow> int \<Rightarrow> int \<Rightarrow> (Chunk \<times> nat) \<times> ChunkCache" where
  "get_cell c x y =
     (let cx = x div int CHUNK_SIZE;
          cy = y div int CHUNK_SIZE;
          (ch, c') = get_chunk c cx cy;
          idx = nat ((y mod int CHUNK_SIZE) * int CHUNK_SIZE + (x mod int CHUNK_SIZE))
      in ((ch, idx), c'))"

subsection \<open>Simulation state\<close>

record Household =
  hid :: int
  settlement_id :: int
  parent_id :: int

record Settlement =
  st_x :: int
  st_y :: int
  val :: "real list"

record Agent =
  pos_x :: int
  pos_y :: int
  vocation_id :: int
  age :: int
  household_id :: int
  inventory :: "int list"
  hunger :: real
  fatigue :: real
  health :: real

record Sim =
  world :: WorldSpec
  gen :: WorldGen
  cache :: ChunkCache
  settlements :: "Settlement list"
  resources_pool :: "int list"
  households :: "Household list"
  agents :: "Agent list"
  voc_table :: VocationTable
  day :: int
  switch_every_days :: int

text \<open>In-place mutation of the agent that the reference \<open>i\<close> points to.\<close>

definition upd_agent :: "nat \<Rightarrow> (Agent \<Rightarrow> Agent) \<Rightarrow> Sim \<Rightarrow> Sim" where
  "upd_agent i f sim = sim\<lparr>agents := (agents sim)[i := f (agents sim ! i)]\<rparr>"

text \<open>\<open>a.inv[it] += d\<close> for one of the item constants \<open>it\<close>.\<close>

definition inv_add :: "nat \<Rightarrow> int \<Rightarrow> Agent \<Rightarrow> Agent" where
  "inv_add it d a = a\<lparr>inventory := (inventory a)[it := inventory a ! it + d]\<rparr>"

definition fatigue_add :: "real \<Rightarrow> Agent \<Rightarrow> Agent" where
  "fatigue_add d a = a\<lparr>fatigue := fatigue a + d\<rparr>"

subsection \<open>Task operations\<close>











subsection \<open>Condition evaluation and the task picker\<close>

fun inv_clauses :: "int list \<Rightarrow> (int \<times> int \<times> int) list \<Rightarrow> bool option" where
  "inv_clauses iv [] = Some True"
| "inv_clauses iv ((ik, ck, v) # cs) =
     (case py_get iv ik of
        None \<Rightarrow> None
      | Some have \<Rightarrow>
          if ck = CMP_GT \<and> \<not> (have > v) then Some False
          else if ck = CMP_LT \<and> \<not> (have < v) then Some False
          else if ck = CMP_GE \<and> \<not> (have \<ge> v) then Some False
          else if ck = CMP_LE \<and> \<not> (have \<le> v) then Some False
          else inv_clauses iv cs)"

definition cond_eval :: "Condition \<Rightarrow> Sim \<Rightarrow> Agent \<Rightarrow> real \<Rightarrow> bool option" where
  "cond_eval c sim a roll =
     (if has_hunger c \<and> \<not> (hunger a > hunger_threshold c) then Some False
      else if has_fatigue c \<and> \<not> (fatigue a < fatigue_threshold c) then Some False
      else if season_eq c \<noteq> SEASON_ANY \<and> world_season_kind (day sim) \<noteq> season_eq c
        then Some False
      else
        (case inv_clauses (inventory a) (zip (inv_item c) (zip (inv_cmp c) (inv_value c))) of
           None \<Rightarrow> None
         | Some False \<Rightarrow> Some False
         | Some True \<Rightarrow> if has_prob c \<and> \<not> (roll < prob c) then Some False else Some True))"

text \<open>The first loop of \<open>choose_task\<close>: state \<open>(tot, eligible)\<close>.\<close>

fun collect_eligible ::
  "Sim \<Rightarrow> Agent \<Rightarrow> real \<Rightarrow> RuleDef list \<Rightarrow> int \<Rightarrow> RuleDef list \<Rightarrow> (int \<times> RuleDef list) option" where
  "collect_eligible sim a roll [] tot eligible = Some (tot, eligible)"
| "collect_eligible sim a roll (r # rs) tot eligible =
     (case cond_eval (cond r) sim a roll of
        None \<Rightarrow> None
      | Some ok \<Rightarrow>
          if ok then
            (let w = (if weight r > 0 then weight r else 0) in
             if w > 0 then collect_eligible sim a roll rs (tot + w) (eligible @ [r])
             else collect_eligible sim a roll rs tot eligible)
          else collect_eligible sim a roll rs tot eligible)"

text \<open>The second loop: the first rule that drives \<open>pick\<close> below zero.\<close>

fun walk_eligible :: "int \<Rightarrow> RuleDef list \<Rightarrow> RuleDef option" where
  "walk_eligible pick [] = None"
| "walk_eligible pick (r # rs) =
     (let w = (if weight r > 0 then weight r else 0);
          pick' = pick - w
      in if pick' < 0 then Some r else walk_eligible pick' rs)"

fun find_task :: "TaskDef list \<Rightarrow> string \<Rightarrow> TaskDef option" where
  "find_task [] nm = None"
| "find_task (t # ts) nm = (if tname t = nm then Some t else find_task ts nm)"

text \<open>
  \<open>choose_task\<close> returns \<open>Some None\<close> for Python's \<open>None\<close> (no task) and \<open>None\<close> where
  the condition evaluator raises.
\<close>

definition choose_task :: "Sim \<Rightarrow> Agent \<Rightarrow> TaskDef option option" where
  "choose_task sim a =
     (case voc_get (voc_table sim) (vocation_id a) of
        None \<Rightarrow> Some None
      | Some voc \<Rightarrow>
          (let roll = rng_f01 (ws_seed (world sim)) (pos_x a) (pos_y a)
                        (day sim XOR (household_id a * 131))
           in case collect_eligible sim a roll (rules voc) 0 [] of
                None \<Rightarrow> None
              | Some (tot, eligible) \<Rightarrow>
                  if tot \<le> 0 then Some None
                  else
                    (let pick = rng_u32 (ws_seed (world sim)) (pos_x a) (pos_y a)
                                  (day sim XOR 0xC0FFEE) mod tot
                     in case walk_eligible pick eligible of
                          None \<Rightarrow> Some None
                        | Some r \<Rightarrow> Some (find_task (tasks voc) (task_name r)))))"

subsection \<open>Task execution\<close>





subsection \<open>Role switching\<close>

text \<open>The census loop of \<open>role_switching\<close>: state \<open>(alive, totals)\<close>.\<close>

definition census_step :: "Agent \<Rightarrow> int \<times> int list \<Rightarrow> int \<times> int list" where
  "census_step a acc =
     (if health a \<le> 0 then acc
      else (fst acc + 1, map (\<lambda>it. snd acc ! it + inventory a ! it) [0..<ITEM_MAX]))"

definition census :: "Agent list \<Rightarrow> int \<times> int list" where
  "census as = fold census_step as (0, replicate ITEM_MAX 0)"

text \<open>
  The choice of the target vocation, from the four ids found in the vocation table and
  the four per-capita figures: four \<open>if\<close>s in sequence, each overwriting
  \<open>target_voc\<close>.
\<close>

definition role_target ::
  "int \<Rightarrow> int \<Rightarrow> int \<Rightarrow> int \<Rightarrow> real \<Rightarrow> real \<Rightarrow> real \<Rightarrow> real \<Rightarrow> int" where
  "role_target farmer_id fisher_id smith_id potter_id pc_grain pc_fish pc_tool pc_pot =
     (let t0 = -1;
          t1 = (if farmer_id \<ge> 0 \<and> pc_grain < 3.0 then farmer_id else t0);
          t2 = (if fisher_id \<ge> 0 \<and> pc_fish < 2.0 \<and> (t1 < 0 \<or> pc_fish < pc_grain)
                then fisher_id else t1);
          t3 = (if smith_id \<ge> 0 \<and> pc_tool < 0.6 then smith_id else t2);
          t4 = (if potter_id \<ge> 0 \<and> pc_pot < 0.6 then potter_id else t3)
      in t4)"

text \<open>The switching loop over \<open>enumerate(sim.agents)\<close>, with its \<open>break\<close>.\<close>

fun switch_loop :: "int \<Rightarrow> int \<Rightarrow> nat list \<Rightarrow> int \<Rightarrow> Sim \<Rightarrow> (int \<times> Sim) option" where
  "switch_loop target_voc alive [] switched sim = Some (switched, sim)"
| "switch_loop target_voc alive (i # js) switched sim =
     (let a = agents sim ! i in
      if health a \<le> 0 then switch_loop target_voc alive js switched sim
      else if age a < 17 then switch_loop target_voc alive js switched sim
      else if vocation_id a = target_voc then switch_loop target_voc alive js switched sim
      else
        (case py_get (households sim) (household_id a) of
           None \<Rightarrow> None
         | Some hh \<Rightarrow>
             if parent_id hh = int i then switch_loop target_voc alive js switched sim
             else
               (let r = rng_f01 (ws_seed (world sim)) (pos_x a) (pos_y a) (day sim XOR 0x5A17C9)
                in if r < 0.05 then
                     (let sim1 = upd_agent i (\<lambda>a. a\<lparr>vocation_id := target_voc\<rparr>) sim;
                          switched1 = switched + 1
                      in if switched1 \<ge> alive div 50 + 1 then Some (switched1, sim1)
                         else switch_loop target_voc alive js switched1 sim1)
                   else switch_loop target_voc alive js switched sim)))"

text \<open>The line written to stdout when \<open>switched > 0\<close> is not part of the state.\<close>

definition role_switching :: "Sim \<Rightarrow> Sim option" where
  "role_switching sim =
     (if switch_every_days sim = 0 then Some sim
      else if day sim mod switch_every_days sim \<noteq> 0 then Some sim
      else
        (let (alive, totals) = census (agents sim) in
         if alive \<le> 0 then Some sim
         else
           (let pc_grain = real_of_int (totals ! ITEM_GRAIN) / real_of_int alive;
                pc_fish = real_of_int (totals ! ITEM_FISH) / real_of_int alive;
                pc_tool = real_of_int (totals ! ITEM_TOOL) / real_of_int alive;
                pc_pot = real_of_int (totals ! ITEM_POT) / real_of_int alive;
                farmer_id = voc_find (voc_table sim) ''farmer'';
                fisher_id = voc_find (voc_table sim) ''fisher'';
                smith_id = voc_find (voc_table sim) ''smith'';
                potter_id = voc_find (voc_table sim) ''potter'';
                target_voc = role_target farmer_id fisher_id smith_id potter_id
                               pc_grain pc_fish pc_tool pc_pot
            in if target_voc < 0 then Some sim
               else map_option snd
                      (switch_loop target_voc alive [0..<length (agents sim)] 0 sim))))"

subsection \<open>The day stepper\<close>

definition season_mul :: "int \<Rightarrow> int \<Rightarrow> real" where
  "season_mul season rk =
     (let fishMul = (if season = SEASON_WINTER then 0.70 else 1.0);
          grainMul = (if season = SEASON_WINTER then 0.30
                      else if season = SEASON_SUMMER \<or> season = SEASON_AUTUMN then 1.0
                      else 0.70)
      in if rk = RES_FISH then fishMul else if rk = RES_GRAIN then grainMul else 1.0)"

definition regen_pool :: "int \<Rightarrow> Sim \<Rightarrow> Sim" where
  "regen_pool season sim =
     (let scale = max 1000 (int (length (agents sim)) * 80) in
      sim\<lparr>resources_pool :=
        fold (\<lambda>rk pool. pool[rk := pool ! rk +
                py_int (renew_per_day (res_model (world sim)) ! rk * season_mul season (int rk)
                        * 255.0 * real_of_int scale)])
          [0..<RES_MAX] (resources_pool sim)\<rparr>)"







section \<open>Properties\<close>

subsection \<open>Season names in conditions\<close>

definition season_names :: "string set" where
  "season_names = {''spring'', ''summer'', ''autumn'', ''fall'', ''winter'', ''any''}"

lemma season_parse_unknown: "lower nm \<notin> season_names \<Longrightarrow> season_parse nm = SEASON_ANY"
  by (simp add: season_parse_def season_names_def Let_def)

lemma cond_eval_any_season:
  "season_eq c = SEASON_ANY \<Longrightarrow> cond_eval c (sim\<lparr>day := d\<rparr>) a roll = cond_eval c sim a roll"
  by (simp add: cond_eval_def)

lemma season_clause_do:
  "parse_condition_loop to_f32 to_i32 c
     (TK_WORD ''season'' # TK_WORD ''=='' # TK_WORD nm # TK_WORD ''do'' # rest)
   = Some (c\<lparr>season_eq := season_parse nm\<rparr>, rest)"
  by (simp add: parse_condition_loop.simps [of _ _ _ "TK_WORD ''season'' # _"]
      parse_clause_def expect_word_def)

lemma season_clause_and:
  "parse_condition_loop to_f32 to_i32 c
     (TK_WORD ''season'' # TK_WORD ''=='' # TK_WORD nm # TK_WORD ''and'' # rest)
   = parse_condition_loop to_f32 to_i32 (c\<lparr>season_eq := season_parse nm\<rparr>) rest"
  by (simp add: parse_condition_loop.simps [of _ _ _ "TK_WORD ''season'' # _"]
      parse_clause_def expect_word_def)

text \<open>
  C10, as stated: a name outside the six season words is mapped to \<open>SEASON_ANY\<close>. The
  parser lower-cases the name first, so \<open>WINTER\<close>, which is none of the six words, is
  the winter season, and the rule it gates is rejected on a spring day.
\<close>

definition ex_sim0 :: Sim where
  "ex_sim0 = \<lparr>world = \<lparr>ws_seed = 1337, settlement_count = 1,
                 res_model = \<lparr>renew_per_day = replicate 14 0\<rparr>\<rparr>,
     gen = \<lparr>gen_seed = 1337\<rparr>,
     cache = ChunkCache_init 16 \<lparr>gen_seed = 1337\<rparr>
               \<lparr>ws_seed = 1337, settlement_count = 1,
                res_model = \<lparr>renew_per_day = replicate 14 0\<rparr>\<rparr>,
     settlements = [\<lparr>st_x = 1000, st_y = 1000, val = replicate 9 1\<rparr>],
     resources_pool = replicate 14 0,
     households = [\<lparr>hid = 0, settlement_id = 0, parent_id = 0\<rparr>],
     agents = [], voc_table = [], day = 1, switch_every_days = 30\<rparr>"

definition ex_agent0 :: Agent where
  "ex_agent0 = \<lparr>pos_x = 100, pos_y = 100, vocation_id = 0, age = 30, household_id = 0,
     inventory = replicate 9 0, hunger = 0.10, fatigue = 0.10, health = 1\<rparr>"

theorem season_upper_case_counterexample:
  "''WINTER'' \<notin> season_names
   \<and> parse_condition (\<lambda>s. None) (\<lambda>s. None)
        [TK_WORD ''season'', TK_WORD ''=='', TK_WORD ''WINTER'', TK_WORD ''do'']
      = Some (Condition0\<lparr>season_eq := SEASON_WINTER\<rparr>, [])
   \<and> SEASON_WINTER \<noteq> SEASON_ANY
   \<and> cond_eval (Condition0\<lparr>season_eq := SEASON_WINTER\<rparr>) ex_sim0 ex_agent0 0 = Some False"
  by (simp add: season_names_def parse_condition_def season_clause_do season_parse_def
      lower_def lower_char_def SEASON_defs cond_eval_def Condition0_def ex_sim0_def
      world_season_kind_def)

text \<open>
  C10, amended: the clause \<open>season == NAME\<close> never fails, whatever the word \<open>NAME\<close>
  is, both as the last clause (before \<open>do\<close>) and before \<open>and\<close>; the season stored
  is \<open>season_parse NAME\<close>; a \<open>NAME\<close> whose lower-cased form is none of the six season
  words is stored as \<open>SEASON_ANY\<close>, and then the result of the condition evaluator does
  not depend on the day, so the season never rejects.
\<close>

theorem season_clause_never_fails:
  "parse_condition_loop to_f32 to_i32 c
     (TK_WORD ''season'' # TK_WORD ''=='' # TK_WORD nm # TK_WORD ''do'' # rest)
     = Some (c\<lparr>season_eq := season_parse nm\<rparr>, rest)
   \<and> parse_condition_loop to_f32 to_i32 c
       (TK_WORD ''season'' # TK_WORD ''=='' # TK_WORD nm # TK_WORD ''and'' # rest)
     = parse_condition_loop to_f32 to_i32 (c\<lparr>season_eq := season_parse nm\<rparr>) rest
   \<and> (lower nm \<notin> season_names \<longrightarrow>
        season_parse nm = SEASON_ANY
        \<and> (\<forall>sim d a roll.
              cond_eval (c\<lparr>season_eq := season_parse nm\<rparr>) (sim\<lparr>day := d\<rparr>) a roll
              = cond_eval (c\<lparr>season_eq := season_parse nm\<rparr>) sim a roll))"
  using season_clause_do season_clause_and season_parse_unknown cond_eval_any_season
  by simp

theorem season_clause_never_fails_witness:
  "lower ''harvest'' \<notin> season_names
   \<and> parse_condition_loop (\<lambda>s. None) (\<lambda>s. None) Condition0
        [TK_WORD ''season'', TK_WORD ''=='', TK_WORD ''harvest'', TK_WORD ''do'']
      = Some (Condition0\<lparr>season_eq := SEASON_ANY\<rparr>, [])
   \<and> cond_eval (Condition0\<lparr>season_eq := SEASON_ANY\<rparr>) (ex_sim0\<lparr>day := 300\<rparr>) ex_agent0 0
      = cond_eval (Condition0\<lparr>season_eq := SEASON_ANY\<rparr>) ex_sim0 ex_agent0 0"
proof -
  have h: "lower ''harvest'' \<notin> season_names"
    by (simp add: season_names_def lower_def lower_char_def)
  note t = season_clause_never_fails
             [of "\<lambda>s. None" "\<lambda>s. None" Condition0 "''harvest''" "[]"]
  from t h have e: "season_parse ''harvest'' = SEASON_ANY" by blast
  from t have p: "parse_condition_loop (\<lambda>s. None) (\<lambda>s. None) Condition0
        [TK_WORD ''season'', TK_WORD ''=='', TK_WORD ''harvest'', TK_WORD ''do'']
      = Some (Condition0\<lparr>season_eq := season_parse ''harvest''\<rparr>, [])" by blast
  from t h have "cond_eval (Condition0\<lparr>season_eq := season_parse ''harvest''\<rparr>)
        (ex_sim0\<lparr>day := 300\<rparr>) ex_agent0 0
      = cond_eval (Condition0\<lparr>season_eq := season_parse ''harvest''\<rparr>) ex_sim0 ex_agent0 0"
    by blast
  with h e p show ?thesis by simp
qed

subsection \<open>Role switching\<close>

definition living :: "Agent list \<Rightarrow> Agent list" where
  "living as = filter (\<lambda>a. \<not> health a \<le> 0) as"

lemma census_fold:
  "length ts = ITEM_MAX \<Longrightarrow>
   fold census_step as (n, ts) =
     (n + int (length (living as)),
      map (\<lambda>it. ts ! it + sum_list (map (\<lambda>a. inventory a ! it) (living as))) [0..<ITEM_MAX])"
proof (induction as arbitrary: n ts)
  case Nil
  then show ?case by (simp add: living_def list_eq_iff_nth_eq)
next
  case (Cons a as)
  show ?case
  proof (cases "health a \<le> 0")
    case True
    with Cons show ?thesis by (simp add: census_step_def living_def)
  next
    case False
    let ?ts = "map (\<lambda>it. ts ! it + inventory a ! it) [0..<ITEM_MAX]"
    have "length ?ts = ITEM_MAX" by simp
    from Cons.IH [OF this, of "n + 1"] False show ?thesis
      by (simp add: census_step_def living_def add.assoc)
  qed
qed

lemma census_eq:
  "census as =
     (int (length (living as)),
      map (\<lambda>it. sum_list (map (\<lambda>a. inventory a ! it) (living as))) [0..<ITEM_MAX])"
  by (simp add: census_def census_fold)

lemma role_target_eq:
  "role_target farmer_id fisher_id smith_id potter_id pc_grain pc_fish pc_tool pc_pot =
     (if 0 \<le> potter_id \<and> pc_pot < 0.6 then potter_id
      else if 0 \<le> smith_id \<and> pc_tool < 0.6 then smith_id
      else if 0 \<le> fisher_id \<and> pc_fish < 2
              \<and> (farmer_id < 0 \<or> 3 \<le> pc_grain \<or> pc_fish < pc_grain) then fisher_id
      else if 0 \<le> farmer_id \<and> pc_grain < 3 then farmer_id
      else -1)"
  by (auto simp: role_target_def Let_def)

lemma upd_agent_simps [simp]:
  "households (upd_agent i f sim) = households sim"
  "length (agents (upd_agent i f sim)) = length (agents sim)"
  "settlements (upd_agent i f sim) = settlements sim"
  "resources_pool (upd_agent i f sim) = resources_pool sim"
  "voc_table (upd_agent i f sim) = voc_table sim"
  "day (upd_agent i f sim) = day sim"
  "world (upd_agent i f sim) = world sim"
  "switch_every_days (upd_agent i f sim) = switch_every_days sim"
  by (simp_all add: upd_agent_def)

lemma upd_agent_nth:
  "k < length (agents sim) \<Longrightarrow>
   agents (upd_agent i f sim) ! k = (if k = i then f (agents sim ! k) else agents sim ! k)"
  by (simp add: upd_agent_def nth_list_update)

text \<open>What the switching loop preserves: only \<open>vocation_id\<close> fields change, and not
  that of an agent who is the parent of its own household.\<close>

definition is_parent :: "Sim \<Rightarrow> nat \<Rightarrow> bool" where
  "is_parent sim i \<longleftrightarrow>
     (case py_get (households sim) (household_id (agents sim ! i)) of
        None \<Rightarrow> False
      | Some hh \<Rightarrow> parent_id hh = int i)"

definition switch_frame :: "int \<Rightarrow> Sim \<Rightarrow> Sim \<Rightarrow> bool" where
  "switch_frame t sim sim' \<longleftrightarrow>
     households sim' = households sim
     \<and> length (agents sim') = length (agents sim)
     \<and> (\<forall>k < length (agents sim).
           agents sim' ! k = (agents sim ! k)\<lparr>vocation_id := vocation_id (agents sim' ! k)\<rparr>
           \<and> (vocation_id (agents sim' ! k) = vocation_id (agents sim ! k)
                \<or> vocation_id (agents sim' ! k) = t)
           \<and> (is_parent sim k \<longrightarrow> agents sim' ! k = agents sim ! k))"

lemma agent_vocation_id_same [simp]: "a\<lparr>vocation_id := vocation_id a\<rparr> = (a :: Agent)"
  by (cases a) simp

lemma switch_frame_refl: "switch_frame t sim sim"
  by (simp add: switch_frame_def)

lemma is_parent_frame:
  "households sim' = households sim \<Longrightarrow>
   household_id (agents sim' ! k) = household_id (agents sim ! k) \<Longrightarrow>
   is_parent sim' k = is_parent sim k"
  by (simp add: is_parent_def)

lemma switch_frame_trans:
  assumes "switch_frame t s1 s2" "switch_frame t s2 s3"
  shows "switch_frame t s1 s3"
  unfolding switch_frame_def
proof (intro conjI allI impI)
  show "households s3 = households s1" using assms by (simp add: switch_frame_def)
  show "length (agents s3) = length (agents s1)" using assms by (simp add: switch_frame_def)
next
  fix k assume k: "k < length (agents s1)"
  then have k2: "k < length (agents s2)" using assms by (simp add: switch_frame_def)
  from assms(1) k
  have v: "agents s2 ! k = (agents s1 ! k)\<lparr>vocation_id := vocation_id (agents s2 ! k)\<rparr>"
    by (simp add: switch_frame_def)
  from assms(2) k2
  have w: "agents s3 ! k = (agents s2 ! k)\<lparr>vocation_id := vocation_id (agents s3 ! k)\<rparr>"
    by (simp add: switch_frame_def)
  show "agents s3 ! k = (agents s1 ! k)\<lparr>vocation_id := vocation_id (agents s3 ! k)\<rparr>"
    by (subst w, subst v) simp
next
  fix k assume k: "k < length (agents s1)"
  then have k2: "k < length (agents s2)" using assms by (simp add: switch_frame_def)
  from assms(1) k
  have a: "vocation_id (agents s2 ! k) = vocation_id (agents s1 ! k)
           \<or> vocation_id (agents s2 ! k) = t"
    by (simp add: switch_frame_def)
  from assms(2) k2
  have b: "vocation_id (agents s3 ! k) = vocation_id (agents s2 ! k)
           \<or> vocation_id (agents s3 ! k) = t"
    by (simp add: switch_frame_def)
  from a b
  show "vocation_id (agents s3 ! k) = vocation_id (agents s1 ! k)
        \<or> vocation_id (agents s3 ! k) = t"
    by auto
next
  fix k assume k: "k < length (agents s1)" and p: "is_parent s1 k"
  then have k2: "k < length (agents s2)" using assms by (simp add: switch_frame_def)
  from assms(1) k p have e: "agents s2 ! k = agents s1 ! k" by (simp add: switch_frame_def)
  from assms(1) have "households s2 = households s1" by (simp add: switch_frame_def)
  with e p have "is_parent s2 k" by (simp add: is_parent_def)
  with assms(2) k2 have "agents s3 ! k = agents s2 ! k" by (simp add: switch_frame_def)
  with e show "agents s3 ! k = agents s1 ! k" by simp
qed

lemma switch_frame_upd:
  assumes "\<not> is_parent sim i"
  shows "switch_frame t sim (upd_agent i (\<lambda>a. a\<lparr>vocation_id := t\<rparr>) sim)"
  unfolding switch_frame_def
proof (intro conjI allI impI)
  fix k assume k: "k < length (agents sim)"
  then show "agents (upd_agent i (\<lambda>a. a\<lparr>vocation_id := t\<rparr>) sim) ! k
            = (agents sim ! k)\<lparr>vocation_id :=
                vocation_id (agents (upd_agent i (\<lambda>a. a\<lparr>vocation_id := t\<rparr>) sim) ! k)\<rparr>"
    by (simp add: upd_agent_nth)
next
  fix k assume k: "k < length (agents sim)"
  then show "vocation_id (agents (upd_agent i (\<lambda>a. a\<lparr>vocation_id := t\<rparr>) sim) ! k)
               = vocation_id (agents sim ! k)
             \<or> vocation_id (agents (upd_agent i (\<lambda>a. a\<lparr>vocation_id := t\<rparr>) sim) ! k) = t"
    by (simp add: upd_agent_nth)
next
  fix k assume k: "k < length (agents sim)" and p: "is_parent sim k"
  with assms have "k \<noteq> i" by auto
  with k show "agents (upd_agent i (\<lambda>a. a\<lparr>vocation_id := t\<rparr>) sim) ! k = agents sim ! k"
    by (simp add: upd_agent_nth)
qed simp_all

lemma switch_loop_frame:
  "switch_loop t alive js sw sim = Some (sw', sim') \<Longrightarrow> switch_frame t sim sim'"
proof (induction js arbitrary: sw sim)
  case Nil
  then show ?case by (simp add: switch_frame_refl)
next
  case (Cons i js)
  let ?a = "agents sim ! i"
  show ?case
  proof (cases "health ?a \<le> 0 \<or> age ?a < 17 \<or> vocation_id ?a = t")
    case True
    with Cons.prems have "switch_loop t alive js sw sim = Some (sw', sim')"
      by (auto simp: Let_def split: if_splits)
    then show ?thesis by (rule Cons.IH)
  next
    case skip: False
    with Cons.prems obtain hh where hh: "py_get (households sim) (household_id ?a) = Some hh"
      by (auto simp: Let_def split: option.splits)
    show ?thesis
    proof (cases "parent_id hh = int i")
      case True
      with Cons.prems skip hh have "switch_loop t alive js sw sim = Some (sw', sim')"
        by (auto simp: Let_def)
      then show ?thesis by (rule Cons.IH)
    next
      case np: False
      with hh have nparent: "\<not> is_parent sim i" by (simp add: is_parent_def)
      let ?r = "rng_f01 (ws_seed (world sim)) (pos_x ?a) (pos_y ?a) (day sim XOR 0x5A17C9)"
      let ?sim1 = "upd_agent i (\<lambda>a. a\<lparr>vocation_id := t\<rparr>) sim"
      show ?thesis
      proof (cases "?r < 0.05")
        case False
        with Cons.prems skip hh np have "switch_loop t alive js sw sim = Some (sw', sim')"
          by (auto simp: Let_def)
        then show ?thesis by (rule Cons.IH)
      next
        case True
        have f1: "switch_frame t sim ?sim1" using nparent by (rule switch_frame_upd)
        show ?thesis
        proof (cases "sw + 1 \<ge> alive div 50 + 1")
          case True
          with Cons.prems skip hh np \<open>?r < 0.05\<close> have "sim' = ?sim1"
            by (auto simp: Let_def)
          with f1 show ?thesis by simp
        next
          case False
          with Cons.prems skip hh np \<open>?r < 0.05\<close>
          have "switch_loop t alive js (sw + 1) ?sim1 = Some (sw', sim')"
            by (auto simp: Let_def)
          then have "switch_frame t ?sim1 sim'" by (rule Cons.IH)
          with f1 show ?thesis by (rule switch_frame_trans)
        qed
      qed
    qed
  qed
qed

lemma switch_loop_total:
  "\<forall>a \<in> set (agents sim). py_get (households sim) (household_id a) \<noteq> None \<Longrightarrow>
   \<forall>j \<in> set js. j < length (agents sim) \<Longrightarrow>
   \<exists>r. switch_loop t alive js sw sim = Some r"
proof (induction js arbitrary: sw sim)
  case Nil
  then show ?case by simp
next
  case (Cons i js)
  let ?sim1 = "upd_agent i (\<lambda>a. a\<lparr>vocation_id := t\<rparr>) sim"
  from Cons.prems have i: "i < length (agents sim)" by simp
  then have "agents sim ! i \<in> set (agents sim)" by simp
  with Cons.prems(1) have "py_get (households sim) (household_id (agents sim ! i)) \<noteq> None"
    by blast
  then obtain hh where
    hh: "py_get (households sim) (household_id (agents sim ! i)) = Some hh" by auto
  have "\<forall>a \<in> set (agents ?sim1). py_get (households ?sim1) (household_id a) \<noteq> None"
  proof
    fix a assume "a \<in> set (agents ?sim1)"
    then obtain k where k: "k < length (agents sim)" "a = agents ?sim1 ! k"
      by (auto simp: in_set_conv_nth)
    then have "household_id a = household_id (agents sim ! k)"
      by (simp add: upd_agent_nth)
    moreover have "agents sim ! k \<in> set (agents sim)" using k by simp
    ultimately show "py_get (households ?sim1) (household_id a) \<noteq> None"
      using Cons.prems(1) by simp
  qed
  moreover have "\<forall>j \<in> set js. j < length (agents ?sim1)" using Cons.prems by simp
  ultimately have r1: "\<exists>r. switch_loop t alive js sw2 ?sim1 = Some r" for sw2
    by (rule Cons.IH)
  from Cons.prems have r0: "\<exists>r. switch_loop t alive js sw sim = Some r"
    by (intro Cons.IH) simp_all
  from r0 r1 [of "sw + 1"] hh show ?case
    by (auto simp: Let_def)
qed

lemma py_get_nth: "0 \<le> i \<Longrightarrow> i < int (length xs) \<Longrightarrow> py_get xs i = Some (xs ! nat i)"
  by (simp add: py_get_def)

text \<open>Every agent's household index is a valid index of \<open>sim.households\<close>.\<close>

definition households_ok :: "Sim \<Rightarrow> bool" where
  "households_ok sim \<longleftrightarrow>
     (\<forall>a \<in> set (agents sim). 0 \<le> household_id a \<and> household_id a < int (length (households sim)))"

lemma households_ok_get:
  "households_ok sim \<Longrightarrow> \<forall>a \<in> set (agents sim). py_get (households sim) (household_id a) \<noteq> None"
  by (simp add: households_ok_def py_get_nth)

text \<open>The value of \<open>target_voc\<close> that \<open>role_switching\<close> computes on a day when it runs.\<close>

definition target_of :: "Sim \<Rightarrow> int" where
  "target_of sim =
     (let alive = fst (census (agents sim)); totals = snd (census (agents sim)) in
      role_target (voc_find (voc_table sim) ''farmer'') (voc_find (voc_table sim) ''fisher'')
        (voc_find (voc_table sim) ''smith'') (voc_find (voc_table sim) ''potter'')
        (real_of_int (totals ! ITEM_GRAIN) / real_of_int alive)
        (real_of_int (totals ! ITEM_FISH) / real_of_int alive)
        (real_of_int (totals ! ITEM_TOOL) / real_of_int alive)
        (real_of_int (totals ! ITEM_POT) / real_of_int alive))"

lemma role_switching_unfold:
  "role_switching sim =
     (if switch_every_days sim = 0 \<or> day sim mod switch_every_days sim \<noteq> 0
         \<or> fst (census (agents sim)) \<le> 0 \<or> target_of sim < 0
      then Some sim
      else map_option snd
             (switch_loop (target_of sim) (fst (census (agents sim)))
                [0..<length (agents sim)] 0 sim))"
  by (simp add: role_switching_def target_of_def Let_def split: prod.splits)

lemma role_switching_frame:
  assumes "role_switching sim = Some sim'"
  shows "switch_frame (target_of sim) sim sim'"
proof (cases "switch_every_days sim = 0 \<or> day sim mod switch_every_days sim \<noteq> 0
              \<or> fst (census (agents sim)) \<le> 0 \<or> target_of sim < 0")
  case True
  with assms have "sim' = sim" by (simp add: role_switching_unfold)
  then show ?thesis by (simp add: switch_frame_refl)
next
  case False
  with assms obtain sw where
    "switch_loop (target_of sim) (fst (census (agents sim))) [0..<length (agents sim)] 0 sim
       = Some (sw, sim')"
    by (auto simp: role_switching_unfold)
  then show ?thesis by (rule switch_loop_frame)
qed

lemma role_switching_total:
  assumes "households_ok sim"
  shows "\<exists>sim'. role_switching sim = Some sim'"
proof -
  have "\<exists>r. switch_loop t alive [0..<length (agents sim)] 0 sim = Some r" for t alive
    using households_ok_get [OF assms] by (intro switch_loop_total) simp_all
  then show ?thesis
    by (fastforce simp: role_switching_unfold)
qed

definition ex_roles_sim :: Sim where
  "ex_roles_sim = ex_sim0\<lparr>
     agents := [ex_agent0\<lparr>age := 40\<rparr>, ex_agent0\<lparr>pos_x := 224\<rparr>],
     voc_table := [\<lparr>vname = ''farmer'', tasks = [], rules = []\<rparr>,
                   \<lparr>vname = ''smith'', tasks = [], rules = []\<rparr>],
     day := 30\<rparr>"

text \<open>Per-capita holdings of an item over the living agents.\<close>

definition per_capita :: "Sim \<Rightarrow> nat \<Rightarrow> real" where
  "per_capita sim it =
     real_of_int (sum_list (map (\<lambda>a. inventory a ! it) (living (agents sim))))
       / real_of_int (int (length (living (agents sim))))"

text \<open>The target by the last matching clause: potter, then smith, then fisher, then farmer.\<close>

definition last_match_target :: "Sim \<Rightarrow> int" where
  "last_match_target sim =
     (let farmer_id = voc_find (voc_table sim) ''farmer'';
          fisher_id = voc_find (voc_table sim) ''fisher'';
          smith_id = voc_find (voc_table sim) ''smith'';
          potter_id = voc_find (voc_table sim) ''potter''
      in if 0 \<le> potter_id \<and> per_capita sim ITEM_POT < 0.6 then potter_id
         else if 0 \<le> smith_id \<and> per_capita sim ITEM_TOOL < 0.6 then smith_id
         else if 0 \<le> fisher_id \<and> per_capita sim ITEM_FISH < 2
                 \<and> (farmer_id < 0 \<or> 3 \<le> per_capita sim ITEM_GRAIN
                      \<or> per_capita sim ITEM_FISH < per_capita sim ITEM_GRAIN) then fisher_id
         else if 0 \<le> farmer_id \<and> per_capita sim ITEM_GRAIN < 3 then farmer_id
         else -1)"

lemma target_of_last_match: "target_of sim = last_match_target sim"
  by (simp add: target_of_def last_match_target_def per_capita_def census_eq role_target_eq
      Let_def ITEM_defs)

text \<open>
  C6, as stated: with a farmer vocation, per-capita grain below 3 and no fisher clause,
  the target is farmer even when per-capita tool is below 0.6. In this state there are a
  farmer and a smith vocation and no fisher, two living farmers hold nothing (per-capita
  grain and tool are 0), and day 30 is a switching day: the second agent, an adult who is
  not the household parent, is moved to smith (vocation 1), not left a farmer.
\<close>

theorem role_order_counterexample:
  "voc_find (voc_table ex_roles_sim) ''farmer'' = 0
   \<and> voc_find (voc_table ex_roles_sim) ''fisher'' = -1
   \<and> voc_find (voc_table ex_roles_sim) ''smith'' = 1
   \<and> per_capita ex_roles_sim ITEM_GRAIN = 0
   \<and> per_capita ex_roles_sim ITEM_TOOL = 0
   \<and> map vocation_id (agents ex_roles_sim) = [0, 0]
   \<and> map_option (\<lambda>s. map vocation_id (agents s)) (role_switching ex_roles_sim) = Some [0, 1]"
  by code_simp

text \<open>
  C6, amended: on a day when role switching runs and somebody is alive, the target is the
  last clause that matches in the order farmer, fisher, smith, potter (so potter wins over
  smith, smith over fisher and farmer): farmer is the target only if neither the fisher
  clause nor the smith clause (smith exists, per-capita tool below 0.6) nor the potter
  clause (potter exists, per-capita pot below 0.6) applies. The switching loop runs with
  that target, and an agent's vocation afterwards is its old one or that target.
\<close>

theorem role_switching_last_match:
  assumes "switch_every_days sim \<noteq> 0" and "day sim mod switch_every_days sim = 0"
    and "living (agents sim) \<noteq> []"
  shows "role_switching sim =
           (if last_match_target sim < 0 then Some sim
            else map_option snd
                   (switch_loop (last_match_target sim) (int (length (living (agents sim))))
                      [0..<length (agents sim)] 0 sim))
         \<and> (\<forall>sim'. role_switching sim = Some sim' \<longrightarrow>
               (\<forall>k < length (agents sim).
                  vocation_id (agents sim' ! k) = vocation_id (agents sim ! k)
                  \<or> vocation_id (agents sim' ! k) = last_match_target sim))"
proof (intro conjI allI impI)
  from assms(3) have "fst (census (agents sim)) > 0" by (simp add: census_eq)
  with assms(1,2) show "role_switching sim =
           (if last_match_target sim < 0 then Some sim
            else map_option snd
                   (switch_loop (last_match_target sim) (int (length (living (agents sim))))
                      [0..<length (agents sim)] 0 sim))"
    by (simp add: role_switching_unfold target_of_last_match census_eq)
next
  fix sim' k
  assume "role_switching sim = Some sim'" and k: "k < length (agents sim)"
  then have "switch_frame (target_of sim) sim sim'" by (intro role_switching_frame)
  with k show "vocation_id (agents sim' ! k) = vocation_id (agents sim ! k)
                \<or> vocation_id (agents sim' ! k) = last_match_target sim"
    by (simp add: switch_frame_def target_of_last_match)
qed

theorem role_switching_last_match_witness:
  "switch_every_days ex_roles_sim \<noteq> 0
   \<and> day ex_roles_sim mod switch_every_days ex_roles_sim = 0
   \<and> living (agents ex_roles_sim) \<noteq> []
   \<and> last_match_target ex_roles_sim = 1
   \<and> role_switching ex_roles_sim =
       map_option snd (switch_loop 1 2 [0..<length (agents ex_roles_sim)] 0 ex_roles_sim)"
proof -
  have h1: "switch_every_days ex_roles_sim \<noteq> 0"
    and h2: "day ex_roles_sim mod switch_every_days ex_roles_sim = 0"
    and h3: "living (agents ex_roles_sim) \<noteq> []"
    and l: "int (length (living (agents ex_roles_sim))) = 2"
    by (simp_all add: ex_roles_sim_def ex_sim0_def ex_agent0_def living_def)
  have t: "last_match_target ex_roles_sim = 1" by code_simp
  from role_switching_last_match [OF h1 h2 h3] h1 h2 h3 t l show ?thesis by simp
qed

text \<open>
  C7: in a state whose agents all carry a valid household index, role switching
  returns, keeps the households and the number of agents, and leaves the vocation of every
  agent \<open>i\<close> with \<open>households[agents[i].household_id].parent_id = i\<close> as it was.
\<close>

theorem role_switching_keeps_parents:
  assumes "households_ok sim"
  shows "\<exists>sim'. role_switching sim = Some sim'
           \<and> length (agents sim') = length (agents sim)
           \<and> households sim' = households sim
           \<and> (\<forall>i < length (agents sim).
                 parent_id (households sim ! nat (household_id (agents sim ! i))) = int i
                 \<longrightarrow> vocation_id (agents sim' ! i) = vocation_id (agents sim ! i))"
proof -
  from role_switching_total [OF assms] obtain sim' where r: "role_switching sim = Some sim'" ..
  then have f: "switch_frame (target_of sim) sim sim'" by (rule role_switching_frame)
  have "vocation_id (agents sim' ! i) = vocation_id (agents sim ! i)"
    if i: "i < length (agents sim)"
      and p: "parent_id (households sim ! nat (household_id (agents sim ! i))) = int i" for i
  proof -
    from i have "agents sim ! i \<in> set (agents sim)" by simp
    with assms have "0 \<le> household_id (agents sim ! i)"
      "household_id (agents sim ! i) < int (length (households sim))"
      by (simp_all add: households_ok_def)
    with p have "is_parent sim i" by (simp add: is_parent_def py_get_nth)
    with f i show ?thesis by (simp add: switch_frame_def)
  qed
  with r f show ?thesis by (auto simp: switch_frame_def)
qed

theorem role_switching_keeps_parents_witness:
  "households_ok ex_roles_sim
   \<and> parent_id (households ex_roles_sim ! nat (household_id (agents ex_roles_sim ! 0))) = 0
   \<and> (\<exists>sim'. role_switching ex_roles_sim = Some sim'
         \<and> vocation_id (agents sim' ! 0) = vocation_id (agents ex_roles_sim ! 0))"
proof -
  have h: "households_ok ex_roles_sim"
    by (simp add: households_ok_def ex_roles_sim_def ex_sim0_def ex_agent0_def)
  have p: "parent_id (households ex_roles_sim ! nat (household_id (agents ex_roles_sim ! 0))) = 0"
    and n: "0 < length (agents ex_roles_sim)"
    by (simp_all add: ex_roles_sim_def ex_sim0_def ex_agent0_def)
  from role_switching_keeps_parents [OF h] p n h show ?thesis by fastforce
qed

subsection \<open>Rule references after parsing\<close>

lemma postfix_loop_nonempty:
  "ts \<noteq> [] \<Longrightarrow>
   postfix_loop names ts rs =
     (ts, map (\<lambda>r. if task_name r \<in> set names then r
                     else r\<lparr>task_name := tname (hd ts)\<rparr>) rs)"
  by (induction rs) auto

lemma postfix_loop_empty:
  "postfix_loop [] [] rs =
     (if rs = [] then [] else [idle_task], map (\<lambda>r. r\<lparr>task_name := ''idle''\<rparr>) rs)"
proof (cases rs)
  case Nil
  then show ?thesis by simp
next
  case (Cons r rs')
  have "postfix_loop [] [idle_task] rs' = ([idle_task], map (\<lambda>r. r\<lparr>task_name := ''idle''\<rparr>) rs')"
    by (simp add: postfix_loop_nonempty idle_task_def)
  with Cons show ?thesis by simp
qed

lemma postfix_rules_tasks:
  "tasks v \<noteq> [] \<Longrightarrow>
   postfix_rules v =
     v\<lparr>rules := map (\<lambda>r. if task_name r \<in> tname ` set (tasks v) then r
                          else r\<lparr>task_name := tname (hd (tasks v))\<rparr>) (rules v)\<rparr>"
  by (cases v) (simp add: postfix_rules_def postfix_loop_nonempty Let_def)

lemma postfix_rules_no_tasks:
  "tasks v = [] \<Longrightarrow> rules v \<noteq> [] \<Longrightarrow>
   postfix_rules v =
     v\<lparr>tasks := [idle_task], rules := map (\<lambda>r. r\<lparr>task_name := ''idle''\<rparr>) (rules v)\<rparr>"
  by (simp add: postfix_rules_def postfix_loop_empty Let_def)

lemma postfix_rules_nothing: "rules v = [] \<Longrightarrow> postfix_rules v = v"
  by (simp add: postfix_rules_def)

lemma postfix_rules_resolved:
  "r \<in> set (rules (postfix_rules v)) \<Longrightarrow> task_name r \<in> tname ` set (tasks (postfix_rules v))"
proof (cases "tasks v = []")
  case True
  assume r: "r \<in> set (rules (postfix_rules v))"
  show ?thesis
  proof (cases "rules v = []")
    case True
    with r show ?thesis by (simp add: postfix_rules_nothing)
  next
    case False
    with True r show ?thesis by (auto simp: postfix_rules_no_tasks idle_task_def)
  qed
next
  case False
  assume r: "r \<in> set (rules (postfix_rules v))"
  from False have "hd (tasks v) \<in> set (tasks v)" by simp
  with False r show ?thesis by (auto simp: postfix_rules_tasks)
qed

text \<open>A vocation as it stands when its closing brace has been read, before the post-fix.\<close>

definition parsed_body :: "(string \<Rightarrow> real option) \<Rightarrow> (string \<Rightarrow> int option) \<Rightarrow> VocationDef \<Rightarrow> bool" where
  "parsed_body to_f32 to_i32 v \<longleftrightarrow>
     (\<exists>nm lx lx'. parse_vocation_body to_f32 to_i32 (VocationDef0 nm) lx = Some (v, lx'))"

lemma parse_vocations_loop_appends:
  "parse_vocations_loop to_f32 to_i32 vt lx = Some (vt', lx') \<Longrightarrow>
   \<exists>vs. vt' = vt @ map postfix_rules vs \<and> (\<forall>v \<in> set vs. parsed_body to_f32 to_i32 v)"
proof (induction "length lx" arbitrary: vt lx rule: less_induct)
  case less
  note unf = parse_vocations_loop.simps [of to_f32 to_i32 vt lx]
  obtain t lx1 where nt: "next_tok lx = (t, lx1)" by (cases "next_tok lx")
  show ?case
  proof (cases t)
    case TK_RBRACE
    with nt less.prems have "vt' = vt" by (simp add: unf)
    then have "vt' = vt @ map postfix_rules []" by simp
    then show ?thesis by (metis empty_iff list.set(1))
  next
    case (TK_WORD w)
    with nt less.prems obtain nm lx2 lx3 voc lx4 where
      w: "w = ''vocation''" and
      ew: "expect_word lx1 = Some (nm, lx2)" and
      el: "expect_lbrace lx2 = Some lx3" and
      pb: "parse_vocation_body to_f32 to_i32 (VocationDef0 nm) lx3 = Some (voc, lx4)" and
      rec: "parse_vocations_loop to_f32 to_i32 (vt @ [postfix_rules voc]) lx4 = Some (vt', lx')"
      by (auto simp: unf split: if_splits option.splits)
    have "length lx1 \<le> length lx" using nt by (rule next_tok_length)
    moreover have "length lx2 < length lx1" using ew by (rule expect_word_length)
    moreover have "length lx3 < length lx2" using el by (rule expect_lbrace_length)
    moreover have "length lx4 < length lx3" using pb by (rule parse_vocation_body_length)
    ultimately have "length lx4 < length lx" by simp
    from less.hyps [OF this rec] obtain vs where
      vs: "vt' = (vt @ [postfix_rules voc]) @ map postfix_rules vs"
        "\<forall>v \<in> set vs. parsed_body to_f32 to_i32 v"
      by blast
    from pb have "parsed_body to_f32 to_i32 voc" by (auto simp: parsed_body_def)
    with vs have "vt' = vt @ map postfix_rules (voc # vs)"
      "\<forall>v \<in> set (voc # vs). parsed_body to_f32 to_i32 v" by simp_all
    then show ?thesis by blast
  qed (use nt less.prems in \<open>simp_all add: unf\<close>)
qed

text \<open>
  C8: when a vocations block parses, the vocation table grows by the post-fixed forms of
  the vocations read in the block; in each of them every rule names a task of that
  vocation. A vocation read with tasks keeps its tasks, and each rule that named none of
  them names the first task; a vocation read with rules and no task gets the single task
  \<open>idle\<close> (one \<open>rest\<close> op) and all its rules name \<open>idle\<close>.
\<close>

theorem parsed_rules_name_tasks:
  assumes "parse_vocations_block to_f32 to_i32 vt lx = Some (vt', lx')"
  shows "\<exists>vs. vt' = vt @ map postfix_rules vs
           \<and> (\<forall>v \<in> set vs.
                 parsed_body to_f32 to_i32 v
                 \<and> (\<forall>r \<in> set (rules (postfix_rules v)).
                       task_name r \<in> tname ` set (tasks (postfix_rules v)))
                 \<and> (tasks v \<noteq> [] \<longrightarrow>
                       tasks (postfix_rules v) = tasks v
                       \<and> rules (postfix_rules v) =
                           map (\<lambda>r. if task_name r \<in> tname ` set (tasks v) then r
                                     else r\<lparr>task_name := tname (hd (tasks v))\<rparr>) (rules v))
                 \<and> (tasks v = [] \<and> rules v \<noteq> [] \<longrightarrow>
                       tasks (postfix_rules v) = [idle_task]
                       \<and> rules (postfix_rules v) =
                           map (\<lambda>r. r\<lparr>task_name := ''idle''\<rparr>) (rules v)))"
proof -
  from assms obtain lx1 where
    "parse_vocations_loop to_f32 to_i32 vt lx1 = Some (vt', lx')"
    by (auto simp: parse_vocations_block_def split: option.splits)
  then obtain vs where vs: "vt' = vt @ map postfix_rules vs"
    "\<forall>v \<in> set vs. parsed_body to_f32 to_i32 v"
    by (blast dest: parse_vocations_loop_appends)
  have "(\<forall>r \<in> set (rules (postfix_rules v)).
            task_name r \<in> tname ` set (tasks (postfix_rules v)))
        \<and> (tasks v \<noteq> [] \<longrightarrow>
              tasks (postfix_rules v) = tasks v
              \<and> rules (postfix_rules v) =
                  map (\<lambda>r. if task_name r \<in> tname ` set (tasks v) then r
                            else r\<lparr>task_name := tname (hd (tasks v))\<rparr>) (rules v))
        \<and> (tasks v = [] \<and> rules v \<noteq> [] \<longrightarrow>
              tasks (postfix_rules v) = [idle_task]
              \<and> rules (postfix_rules v) = map (\<lambda>r. r\<lparr>task_name := ''idle''\<rparr>) (rules v))" for v
    using postfix_rules_resolved [of _ v]
    by (auto simp: postfix_rules_tasks postfix_rules_no_tasks)
  with vs show ?thesis by blast
qed

definition ex_to_f32 :: "string \<Rightarrow> real option" where
  "ex_to_f32 s = (if s = ''1'' then Some 1 else None)"

definition ex_to_i32 :: "string \<Rightarrow> int option" where
  "ex_to_i32 s = (if s = ''1'' then Some 1 else if s = ''2'' then Some 2 else None)"

text \<open>
  The tokens of
  \<^verbatim>\<open>{ vocation smith { rule r { when prob 1 do forge weight 1 } }
    vocation potter { task dig { rest } rule q { when prob 1 do nowhere weight 2 } } }\<close>
\<close>

definition ex_block :: "Tok list" where
  "ex_block =
     [TK_LBRACE,
      TK_WORD ''vocation'', TK_WORD ''smith'', TK_LBRACE,
        TK_WORD ''rule'', TK_WORD ''r'', TK_LBRACE, TK_WORD ''when'', TK_WORD ''prob'',
          TK_WORD ''1'', TK_WORD ''do'', TK_WORD ''forge'', TK_WORD ''weight'', TK_WORD ''1'',
          TK_RBRACE,
      TK_RBRACE,
      TK_WORD ''vocation'', TK_WORD ''potter'', TK_LBRACE,
        TK_WORD ''task'', TK_WORD ''dig'', TK_LBRACE, TK_WORD ''rest'', TK_RBRACE,
        TK_WORD ''rule'', TK_WORD ''q'', TK_LBRACE, TK_WORD ''when'', TK_WORD ''prob'',
          TK_WORD ''1'', TK_WORD ''do'', TK_WORD ''nowhere'', TK_WORD ''weight'', TK_WORD ''2'',
          TK_RBRACE,
      TK_RBRACE,
      TK_RBRACE]"

definition ex_block_table :: VocationTable where
  "ex_block_table =
     [\<lparr>vname = ''smith'', tasks = [idle_task],
       rules = [\<lparr>rname = ''r'', cond = Condition0\<lparr>has_prob := True, prob := 1\<rparr>,
                 task_name = ''idle'', weight = 1\<rparr>]\<rparr>,
      \<lparr>vname = ''potter'',
       tasks = [\<lparr>tname = ''dig'', ops = [\<lparr>kind = OP_REST, arg_i = 0, arg_j = 0\<rparr>]\<rparr>],
       rules = [\<lparr>rname = ''q'', cond = Condition0\<lparr>has_prob := True, prob := 1\<rparr>,
                 task_name = ''dig'', weight = 2\<rparr>]\<rparr>]"

lemma ex_block_parses:
  "parse_vocations_block ex_to_f32 ex_to_i32 [] ex_block = Some (ex_block_table, [])"
  by code_simp

theorem parsed_rules_name_tasks_witness:
  "parse_vocations_block ex_to_f32 ex_to_i32 [] ex_block = Some (ex_block_table, [])
   \<and> list_all (\<lambda>v. list_all (\<lambda>r. task_name r \<in> tname ` set (tasks v)) (rules v))
        ex_block_table"
proof -
  from parsed_rules_name_tasks [OF ex_block_parses] obtain vs where
    vs: "ex_block_table = [] @ map postfix_rules vs"
      "\<forall>v \<in> set vs. \<forall>r \<in> set (rules (postfix_rules v)).
         task_name r \<in> tname ` set (tasks (postfix_rules v))"
    by blast
  from vs(1) have e: "set ex_block_table = postfix_rules ` set vs"
    by (metis append_Nil set_map)
  have "\<forall>v \<in> set ex_block_table. \<forall>r \<in> set (rules v).
      task_name r \<in> tname ` set (tasks v)"
  proof
    fix v assume "v \<in> set ex_block_table"
    with e obtain u where u: "u \<in> set vs" "v = postfix_rules u" by auto
    from vs(2) u(1) have "\<forall>r \<in> set (rules (postfix_rules u)).
         task_name r \<in> tname ` set (tasks (postfix_rules u))" by (rule bspec)
    with u(2) show "\<forall>r \<in> set (rules v). task_name r \<in> tname ` set (tasks v)" by simp
  qed
  then have "list_all (\<lambda>v. list_all (\<lambda>r. task_name r \<in> tname ` set (tasks v)) (rules v))
        ex_block_table"
    by (simp only: list_all_iff)
  with ex_block_parses show ?thesis by (rule conjI)
qed

subsection \<open>The weighted task pick\<close>

text \<open>The rule weight as both loops of \<open>choose_task\<close> use it: \<open>w = r.weight if r.weight > 0 else 0\<close>.\<close>

definition eff_weight :: "RuleDef \<Rightarrow> int" where
  "eff_weight r = (if weight r > 0 then weight r else 0)"

text \<open>The rules that take part in the draw: condition succeeds and weight is positive.\<close>

definition eligible_rules :: "Sim \<Rightarrow> Agent \<Rightarrow> real \<Rightarrow> RuleDef list \<Rightarrow> RuleDef list" where
  "eligible_rules sim a roll rs =
     filter (\<lambda>r. cond_eval (cond r) sim a roll = Some True \<and> weight r > 0) rs"

text \<open>The cumulative weight of the first \<open>k\<close> rules of a list.\<close>

definition cum_weight :: "RuleDef list \<Rightarrow> nat \<Rightarrow> int" where
  "cum_weight rs k = sum_list (map weight (take k rs))"

text \<open>The claim's total: the sum of the weights of the rules whose condition succeeds.\<close>

definition stated_total :: "Sim \<Rightarrow> Agent \<Rightarrow> real \<Rightarrow> RuleDef list \<Rightarrow> int" where
  "stated_total sim a roll rs =
     sum_list (map weight (filter (\<lambda>r. cond_eval (cond r) sim a roll = Some True) rs))"

definition agent_roll :: "Sim \<Rightarrow> Agent \<Rightarrow> real" where
  "agent_roll sim a =
     rng_f01 (ws_seed (world sim)) (pos_x a) (pos_y a) (day sim XOR (household_id a * 131))"

definition agent_draw :: "Sim \<Rightarrow> Agent \<Rightarrow> int" where
  "agent_draw sim a = rng_u32 (ws_seed (world sim)) (pos_x a) (pos_y a) (day sim XOR 0xC0FFEE)"

lemma collect_eligible_eq:
  "\<forall>r \<in> set rs. cond_eval (cond r) sim a roll \<noteq> None \<Longrightarrow>
   collect_eligible sim a roll rs tot el =
     Some (tot + sum_list (map weight (eligible_rules sim a roll rs)),
           el @ eligible_rules sim a roll rs)"
proof (induction rs arbitrary: tot el)
  case Nil
  then show ?case by (simp add: eligible_rules_def)
next
  case (Cons r rs)
  from Cons.prems obtain ok where ok: "cond_eval (cond r) sim a roll = Some ok" by auto
  from Cons.prems have rest: "\<forall>r \<in> set rs. cond_eval (cond r) sim a roll \<noteq> None" by simp
  show ?case
    using ok Cons.IH [OF rest] by (simp add: eligible_rules_def Let_def)
qed

lemma collect_eligible_raises:
  "\<exists>r \<in> set rs. cond_eval (cond r) sim a roll = None \<Longrightarrow>
   collect_eligible sim a roll rs tot el = None"
proof (induction rs arbitrary: tot el)
  case Nil
  then show ?case by simp
next
  case (Cons r rs)
  show ?case
  proof (cases "cond_eval (cond r) sim a roll")
    case None
    then show ?thesis by simp
  next
    case (Some ok)
    with Cons.prems have "\<exists>r \<in> set rs. cond_eval (cond r) sim a roll = None" by auto
    with Some Cons.IH show ?thesis by (simp add: Let_def)
  qed
qed

lemma walk_eligible_interval:
  "\<forall>r \<in> set el. weight r > 0 \<Longrightarrow> 0 \<le> pick \<Longrightarrow> pick < sum_list (map weight el) \<Longrightarrow>
   \<exists>k < length el. walk_eligible pick el = Some (el ! k)
      \<and> cum_weight el k \<le> pick \<and> pick < cum_weight el (Suc k)"
proof (induction el arbitrary: pick)
  case Nil
  then show ?case by simp
next
  case (Cons r el)
  from Cons.prems have w: "weight r > 0" by simp
  show ?case
  proof (cases "pick - weight r < 0")
    case True
    with w Cons.prems(2) have "walk_eligible pick (r # el) = Some ((r # el) ! 0)
      \<and> cum_weight (r # el) 0 \<le> pick \<and> pick < cum_weight (r # el) (Suc 0)"
      by (simp add: cum_weight_def Let_def)
    then show ?thesis by blast
  next
    case False
    with Cons.prems have "\<forall>r \<in> set el. weight r > 0" "0 \<le> pick - weight r"
      "pick - weight r < sum_list (map weight el)" by simp_all
    from Cons.IH [OF this] obtain k where k: "k < length el"
      "walk_eligible (pick - weight r) el = Some (el ! k)"
      "cum_weight el k \<le> pick - weight r" "pick - weight r < cum_weight el (Suc k)"
      by blast
    with False w have "Suc k < length (r # el)
      \<and> walk_eligible pick (r # el) = Some ((r # el) ! Suc k)
      \<and> cum_weight (r # el) (Suc k) \<le> pick \<and> pick < cum_weight (r # el) (Suc (Suc k))"
      by (simp add: cum_weight_def Let_def)
    then show ?thesis by blast
  qed
qed

lemma eligible_rules_pos: "\<forall>r \<in> set (eligible_rules sim a roll rs). weight r > 0"
  by (simp add: eligible_rules_def)

lemma sum_pos_weights: "\<forall>r \<in> set rs. weight r > 0 \<Longrightarrow> 0 \<le> sum_list (map weight rs)"
  by (induction rs) auto

definition ex_task :: "string \<Rightarrow> TaskDef" where
  "ex_task nm = \<lparr>tname = nm, ops = [\<lparr>kind = OP_REST, arg_i = 0, arg_j = 0\<rparr>]\<rparr>"

definition ex_rule :: "string \<Rightarrow> int \<Rightarrow> RuleDef" where
  "ex_rule nm w = \<lparr>rname = nm, cond = Condition0\<lparr>has_prob := True, prob := 1\<rparr>,
     task_name = nm, weight = w\<rparr>"

text \<open>Two rules \<open>when prob 1\<close>, of weights \<open>-5\<close> and \<open>5\<close>.\<close>

definition ex_neg_sim :: Sim where
  "ex_neg_sim = ex_sim0\<lparr>
     voc_table := [\<lparr>vname = ''v'', tasks = [ex_task ''a'', ex_task ''b''],
                    rules = [ex_rule ''a'' (-5), ex_rule ''b'' 5]\<rparr>]\<rparr>"

text \<open>
  Rules of weights 2, 4, 5 that hold, and one of weight 100 gated on winter (day 1 is in
  spring).
\<close>

definition ex_pick_sim :: Sim where
  "ex_pick_sim = ex_sim0\<lparr>
     voc_table := [\<lparr>vname = ''v'', tasks = [ex_task ''a'', ex_task ''b'', ex_task ''c''],
                    rules = [ex_rule ''a'' 2,
                             (ex_rule ''w'' 100)\<lparr>cond := Condition0\<lparr>season_eq := SEASON_WINTER\<rparr>\<rparr>,
                             ex_rule ''b'' 4, ex_rule ''c'' 5]\<rparr>]\<rparr>"

text \<open>
  C4, as stated: \<open>total\<close> is the sum of the weights of the rules whose condition
  succeeds, and \<open>total = 0\<close> gives no task. Both rules here succeed, their weights
  \<open>-5\<close> and \<open>5\<close> sum to 0, and the picker returns the task of the second rule.
\<close>

theorem negative_weight_counterexample:
  "voc_get (voc_table ex_neg_sim) (vocation_id ex_agent0)
     = Some \<lparr>vname = ''v'', tasks = [ex_task ''a'', ex_task ''b''],
              rules = [ex_rule ''a'' (-5), ex_rule ''b'' 5]\<rparr>
   \<and> cond_eval (cond (ex_rule ''a'' (-5))) ex_neg_sim ex_agent0 (agent_roll ex_neg_sim ex_agent0)
       = Some True
   \<and> cond_eval (cond (ex_rule ''b'' 5)) ex_neg_sim ex_agent0 (agent_roll ex_neg_sim ex_agent0)
       = Some True
   \<and> stated_total ex_neg_sim ex_agent0 (agent_roll ex_neg_sim ex_agent0)
         [ex_rule ''a'' (-5), ex_rule ''b'' 5] = 0
   \<and> choose_task ex_neg_sim ex_agent0 = Some (Some (ex_task ''b''))"
  by code_simp

text \<open>
  C4, amended: for an agent with a valid vocation (and conditions that evaluate without
  raising), \<open>total\<close> is the sum of the weights of the rules whose condition succeeds
  under the shared roll and whose weight is positive (a rule of weight \<open>\<le> 0\<close> takes no
  part). If \<open>total = 0\<close> there is no task; otherwise, with
  \<open>pick = rng_u32(seed, x, y, day xor 0xC0FFEE) mod total\<close>, the walk stops at the eligible
  rule whose cumulative-weight interval contains \<open>pick\<close>, and the result is the task of
  that name in the vocation (no task if there is none).
\<close>

theorem choose_task_weighted_pick:
  assumes "voc_get (voc_table sim) (vocation_id a) = Some voc"
    and "\<forall>r \<in> set (rules voc). cond_eval (cond r) sim a (agent_roll sim a) \<noteq> None"
    and "el = eligible_rules sim a (agent_roll sim a) (rules voc)"
    and "tot = sum_list (map weight el)"
    and "pick = agent_draw sim a mod tot"
  shows "0 \<le> tot
         \<and> (tot = 0 \<longrightarrow> choose_task sim a = Some None)
         \<and> (tot \<noteq> 0 \<longrightarrow>
               (\<exists>k < length el.
                  cum_weight el k \<le> pick \<and> pick < cum_weight el (Suc k)
                  \<and> walk_eligible pick el = Some (el ! k)
                  \<and> choose_task sim a = Some (find_task (tasks voc) (task_name (el ! k)))))"
proof -
  have pos: "\<forall>r \<in> set el. weight r > 0" using assms(3) by (simp add: eligible_rules_pos)
  then have nonneg: "0 \<le> tot" using assms(4) by (simp add: sum_pos_weights)
  have ce: "collect_eligible sim a (agent_roll sim a) (rules voc) 0 [] = Some (tot, el)"
    using collect_eligible_eq [OF assms(2), of 0 "[]"] assms(3,4) by simp
  have zero: "choose_task sim a = Some None" if "tot = 0"
    using that assms(1) ce by (simp add: choose_task_def agent_roll_def Let_def)
  have nonzero: "\<exists>k < length el.
        cum_weight el k \<le> pick \<and> pick < cum_weight el (Suc k)
        \<and> walk_eligible pick el = Some (el ! k)
        \<and> choose_task sim a = Some (find_task (tasks voc) (task_name (el ! k)))" if "tot \<noteq> 0"
  proof -
    from that nonneg have tpos: "0 < tot" by simp
    then have "0 \<le> pick" "pick < sum_list (map weight el)"
      using assms(4,5) by simp_all
    from walk_eligible_interval [OF pos this] obtain k where k: "k < length el"
      "walk_eligible pick el = Some (el ! k)"
      "cum_weight el k \<le> pick" "pick < cum_weight el (Suc k)" by blast
    have "choose_task sim a = Some (find_task (tasks voc) (task_name (el ! k)))"
      using assms(1,5) ce tpos k(2)
      by (simp add: choose_task_def agent_roll_def agent_draw_def Let_def)
    with k show ?thesis by blast
  qed
  from nonneg zero nonzero show ?thesis by blast
qed

theorem choose_task_weighted_pick_witness:
  "voc_get (voc_table ex_pick_sim) (vocation_id ex_agent0)
     = Some (hd (voc_table ex_pick_sim))
   \<and> map (\<lambda>r. cond_eval (cond r) ex_pick_sim ex_agent0 (agent_roll ex_pick_sim ex_agent0))
        (rules (hd (voc_table ex_pick_sim)))
       = [Some True, Some False, Some True, Some True]
   \<and> eligible_rules ex_pick_sim ex_agent0 (agent_roll ex_pick_sim ex_agent0)
         (rules (hd (voc_table ex_pick_sim)))
       = [ex_rule ''a'' 2, ex_rule ''b'' 4, ex_rule ''c'' 5]
   \<and> agent_draw ex_pick_sim ex_agent0 mod 11 = 4
   \<and> (\<exists>k < 3. cum_weight [ex_rule ''a'' 2, ex_rule ''b'' 4, ex_rule ''c'' 5] k \<le> 4
          \<and> 4 < cum_weight [ex_rule ''a'' 2, ex_rule ''b'' 4, ex_rule ''c'' 5] (Suc k)
          \<and> choose_task ex_pick_sim ex_agent0
              = Some (find_task (tasks (hd (voc_table ex_pick_sim)))
                       (task_name ([ex_rule ''a'' 2, ex_rule ''b'' 4, ex_rule ''c'' 5] ! k))))"
proof -
  let ?el = "[ex_rule ''a'' 2, ex_rule ''b'' 4, ex_rule ''c'' 5]"
  have h1: "voc_get (voc_table ex_pick_sim) (vocation_id ex_agent0)
              = Some (hd (voc_table ex_pick_sim))"
    by code_simp
  have c: "map (\<lambda>r. cond_eval (cond r) ex_pick_sim ex_agent0 (agent_roll ex_pick_sim ex_agent0))
        (rules (hd (voc_table ex_pick_sim)))
       = [Some True, Some False, Some True, Some True]"
    by code_simp
  have h2: "\<forall>r \<in> set (rules (hd (voc_table ex_pick_sim))).
         cond_eval (cond r) ex_pick_sim ex_agent0 (agent_roll ex_pick_sim ex_agent0) \<noteq> None"
    by code_simp
  have h3: "?el = eligible_rules ex_pick_sim ex_agent0 (agent_roll ex_pick_sim ex_agent0)
         (rules (hd (voc_table ex_pick_sim)))"
    by code_simp
  have h4: "11 = sum_list (map weight ?el)" by (simp add: ex_rule_def)
  have d: "agent_draw ex_pick_sim ex_agent0 mod 11 = 4" by code_simp
  from choose_task_weighted_pick [OF h1 h2 h3 h4 refl] d
  have "\<exists>k < length ?el. cum_weight ?el k \<le> 4 \<and> 4 < cum_weight ?el (Suc k)
          \<and> choose_task ex_pick_sim ex_agent0
              = Some (find_task (tasks (hd (voc_table ex_pick_sim))) (task_name (?el ! k)))"
    by auto
  with h1 c h3 [symmetric] d show ?thesis by (simp add: numeral_3_eq_3)
qed

subsection \<open>Bounds on needs, inventories and the pool\<close>



text \<open>The amounts of a task: no negative \<open>gather\<close> amount, no negative \<open>roam\<close> step count.\<close>

definition op_ok :: "OpDef \<Rightarrow> bool" where
  "op_ok op \<longleftrightarrow> (kind op = OP_GATHER \<or> kind op = OP_ROAM \<longrightarrow> 0 \<le> arg_i op)"

definition program_ok :: "Sim \<Rightarrow> bool" where
  "program_ok sim \<longleftrightarrow>
     (\<forall>v \<in> set (voc_table sim). \<forall>t \<in> set (tasks v). \<forall>op \<in> set (ops t). op_ok op)
     \<and> length (renew_per_day (res_model (world sim))) = RES_MAX
     \<and> (\<forall>r \<in> set (renew_per_day (res_model (world sim))). 0 \<le> r)"




lemma inv_add_fields [simp]:
  "length (inventory (inv_add it d a)) = length (inventory a)"
  "hunger (inv_add it d a) = hunger a"
  "fatigue (inv_add it d a) = fatigue a"
  "health (inv_add it d a) = health a"
  by (simp_all add: inv_add_def)


lemma fatigue_add_fields [simp]:
  "inventory (fatigue_add d a) = inventory a"
  "hunger (fatigue_add d a) = hunger a"
  "health (fatigue_add d a) = health a"
  by (simp_all add: fatigue_add_def)















lemma upd_agent_program [simp]: "program_ok (upd_agent i f sim) = program_ok sim"
  by (simp add: program_ok_def)





text \<open>The part of the state that no step changes: the program, the world, the households,
  the settlements and the number of agents.\<close>

definition same_static :: "Sim \<Rightarrow> Sim \<Rightarrow> bool" where
  "same_static sim sim' \<longleftrightarrow>
     voc_table sim' = voc_table sim \<and> world sim' = world sim
     \<and> households sim' = households sim \<and> settlements sim' = settlements sim
     \<and> switch_every_days sim' = switch_every_days sim
     \<and> length (agents sim') = length (agents sim)"

lemma same_static_refl [simp]: "same_static sim sim"
  by (simp add: same_static_def)


lemma same_static_upd_agent [simp]: "same_static sim (upd_agent i f sim)"
  by (simp add: same_static_def)







lemma find_task_name: "find_task ts nm = Some t \<Longrightarrow> tname t = nm"
  by (induction ts) (auto split: if_splits)










lemma regen_pool_fields [simp]:
  "agents (regen_pool season sim) = agents sim"
  "voc_table (regen_pool season sim) = voc_table sim"
  "world (regen_pool season sim) = world sim"
  "households (regen_pool season sim) = households sim"
  "settlements (regen_pool season sim) = settlements sim"
  "switch_every_days (regen_pool season sim) = switch_every_days sim"
  "day (regen_pool season sim) = day sim"
  by (simp_all add: regen_pool_def Let_def)













subsection \<open>Gathering\<close>




















subsection \<open>The chunk materializer against the per-cell reference\<close>

definition chunk_shape :: "Chunk \<Rightarrow> bool" where
  "chunk_shape ch \<longleftrightarrow>
     length (terrain ch) = CHUNK_CELLS \<and> length (res ch) = RES_MAX
     \<and> (\<forall>k < RES_MAX. length (res ch ! k) = CHUNK_CELLS)"

lemma chunk_shape_Chunk0: "chunk_shape (Chunk0 cx cy)"
  by (simp add: chunk_shape_def Chunk0_def)

lemma chunk_shape_set_res [simp]:
  assumes "chunk_shape ch"
  shows "chunk_shape (set_res ch rk idx v)"
proof -
  have "length ((res ch)[nat rk := (res ch ! nat rk)[idx := v]] ! k) = CHUNK_CELLS"
    if "k < RES_MAX" for k
    using that assms by (cases "k = nat rk") (simp_all add: chunk_shape_def)
  with assms show ?thesis by (simp add: chunk_shape_def set_res_def)
qed

lemma chunk_shape_terrain [simp]:
  "chunk_shape ch \<Longrightarrow> chunk_shape (ch\<lparr>terrain := (terrain ch)[idx := v]\<rparr>)"
  by (simp add: chunk_shape_def)

lemma terrain_set_res [simp]: "terrain (set_res ch rk idx v) = terrain ch"
  by (simp add: set_res_def)

lemma get_res_terrain [simp]: "get_res (ch\<lparr>terrain := t\<rparr>) rk idx = get_res ch rk idx"
  by (simp add: get_res_def)

lemma get_set_res:
  assumes "chunk_shape ch" and "0 \<le> rk" "rk < 14" "0 \<le> rk'" "rk' < 14" "idx < CHUNK_CELLS"
  shows "get_res (set_res ch rk idx v) rk' idx'
           = (if rk' = rk \<and> idx' = idx then v else get_res ch rk' idx')"
proof -
  from assms have l: "nat rk < length (res ch)" "nat rk' < length (res ch)"
    by (simp_all add: chunk_shape_def RES_MAX_def)
  with assms have "idx < length (res ch ! nat rk)" by (simp add: chunk_shape_def)
  with l assms(2,4) show ?thesis
    by (auto simp: get_res_def set_res_def nth_list_update)
qed

text \<open>The six conditional groups of writes of \<open>_generate_chunk\<close>, for one cell.\<close>

definition put_coast :: "int \<Rightarrow> int \<Rightarrow> nat \<Rightarrow> Chunk \<Rightarrow> Chunk" where
  "put_coast tags base idx ch =
     (if has_tag tags TAG_COAST
      then set_res ch RES_FISH idx (clamp_u8 (120 + drop_bit 1 base)) else ch)"

definition put_field :: "int \<Rightarrow> int \<Rightarrow> nat \<Rightarrow> Chunk \<Rightarrow> Chunk" where
  "put_field tags base idx ch =
     (if has_tag tags TAG_FIELD then
        set_res (set_res (set_res (set_res (set_res ch
          RES_GRAIN idx (clamp_u8 (80 + base div 3)))
          RES_PLANT_FIBER idx (clamp_u8 (70 + base div 3)))
          RES_CATTLE idx (clamp_u8 (40 + base div 4)))
          RES_SHEEP idx (clamp_u8 (35 + base div 4)))
          RES_PIG idx (clamp_u8 (30 + base div 4))
      else ch)"

definition put_forest :: "int \<Rightarrow> int \<Rightarrow> nat \<Rightarrow> Chunk \<Rightarrow> Chunk" where
  "put_forest tags base idx ch =
     (if has_tag tags TAG_FOREST then
        set_res (set_res ch RES_WOOD idx (clamp_u8 (90 + base div 3)))
          RES_CHARCOAL idx (clamp_u8 (25 + base div 5))
      else ch)"

definition put_wet :: "int \<Rightarrow> int \<Rightarrow> nat \<Rightarrow> Chunk \<Rightarrow> Chunk" where
  "put_wet tags base idx ch =
     (if has_tag tags TAG_RIVER \<or> has_tag tags TAG_MARSH then
        (if has_tag tags TAG_MARSH then
           (if get_res (set_res ch RES_CLAY idx (clamp_u8 (60 + base div 4))) RES_PLANT_FIBER idx = 0
            then set_res (set_res ch RES_CLAY idx (clamp_u8 (60 + base div 4)))
                   RES_PLANT_FIBER idx (clamp_u8 (70 + base div 3))
            else set_res ch RES_CLAY idx (clamp_u8 (60 + base div 4)))
         else set_res ch RES_CLAY idx (clamp_u8 (60 + base div 4)))
      else ch)"

definition put_hill :: "int \<Rightarrow> int \<Rightarrow> nat \<Rightarrow> Chunk \<Rightarrow> Chunk" where
  "put_hill tags base idx ch =
     (if has_tag tags TAG_HILL then
        set_res (set_res ch RES_COPPER idx (if base > 240 then 40 else 5))
          RES_TIN idx (if base > 250 then 25 else 0)
      else ch)"

definition put_settle :: "int \<Rightarrow> int \<Rightarrow> nat \<Rightarrow> Chunk \<Rightarrow> Chunk" where
  "put_settle tags base idx ch =
     (if has_tag tags TAG_SETTLE then
        set_res (set_res (set_res ch RES_FIRE idx (clamp_u8 (180 + base div 4)))
          RES_RELIGION idx (clamp_u8 (60 + base div 5)))
          RES_TRIBALISM idx (clamp_u8 (20 + base div 8))
      else ch)"

lemma generate_cell_stages:
  "generate_cell g n bx by iy ix ch =
     (let idx = iy * CHUNK_SIZE + ix;
          tags = world_cell_tags g (bx + int ix) (by + int iy) n;
          base = noise01 g (bx + int ix) (by + int iy) 0x9999DDDD
      in put_settle tags base idx (put_hill tags base idx (put_wet tags base idx
           (put_forest tags base idx (put_field tags base idx (put_coast tags base idx
              (ch\<lparr>terrain := (terrain ch)[idx := tags]\<rparr>)))))))"
  unfolding generate_cell_def put_coast_def put_field_def put_forest_def put_wet_def
    put_hill_def put_settle_def noise01_def Let_def
  by (rule refl)

lemma get_set_res_other:
  "j \<noteq> idx \<Longrightarrow> get_res (set_res ch rk idx v) r j = get_res ch r j"
  by (cases "nat rk < length (res ch)")
     (auto simp: get_res_def set_res_def nth_list_update list_update_beyond not_less)

lemma put_shape [simp]:
  "chunk_shape ch \<Longrightarrow> chunk_shape (put_coast t b idx ch)"
  "chunk_shape ch \<Longrightarrow> chunk_shape (put_field t b idx ch)"
  "chunk_shape ch \<Longrightarrow> chunk_shape (put_forest t b idx ch)"
  "chunk_shape ch \<Longrightarrow> chunk_shape (put_wet t b idx ch)"
  "chunk_shape ch \<Longrightarrow> chunk_shape (put_hill t b idx ch)"
  "chunk_shape ch \<Longrightarrow> chunk_shape (put_settle t b idx ch)"
  by (simp_all add: put_coast_def put_field_def put_forest_def put_wet_def put_hill_def
      put_settle_def)

lemma put_terrain [simp]:
  "terrain (put_coast t b idx ch) = terrain ch"
  "terrain (put_field t b idx ch) = terrain ch"
  "terrain (put_forest t b idx ch) = terrain ch"
  "terrain (put_wet t b idx ch) = terrain ch"
  "terrain (put_hill t b idx ch) = terrain ch"
  "terrain (put_settle t b idx ch) = terrain ch"
  by (simp_all add: put_coast_def put_field_def put_forest_def put_wet_def put_hill_def
      put_settle_def)

lemma put_other:
  assumes "j \<noteq> idx"
  shows "get_res (put_coast t b idx ch) r j = get_res ch r j"
    and "get_res (put_field t b idx ch) r j = get_res ch r j"
    and "get_res (put_forest t b idx ch) r j = get_res ch r j"
    and "get_res (put_wet t b idx ch) r j = get_res ch r j"
    and "get_res (put_hill t b idx ch) r j = get_res ch r j"
    and "get_res (put_settle t b idx ch) r j = get_res ch r j"
  using assms
  by (simp_all add: put_coast_def put_field_def put_forest_def put_wet_def put_hill_def
      put_settle_def get_set_res_other)

lemma put_coast_at:
  assumes "chunk_shape ch" "idx < CHUNK_CELLS" "0 \<le> r" "r < 14"
  shows "get_res (put_coast t b idx ch) r idx =
           (if has_tag t TAG_COAST \<and> r = RES_FISH then clamp_u8 (120 + b div 2)
            else get_res ch r idx)"
  using assms by (simp add: put_coast_def get_set_res RES_defs drop_bit_eq_div)

lemma put_field_at:
  assumes "chunk_shape ch" "idx < CHUNK_CELLS" "0 \<le> r" "r < 14"
  shows "get_res (put_field t b idx ch) r idx =
           (if has_tag t TAG_FIELD \<and> r = RES_GRAIN then clamp_u8 (80 + b div 3)
            else if has_tag t TAG_FIELD \<and> r = RES_PLANT_FIBER then clamp_u8 (70 + b div 3)
            else if has_tag t TAG_FIELD \<and> r = RES_CATTLE then clamp_u8 (40 + b div 4)
            else if has_tag t TAG_FIELD \<and> r = RES_SHEEP then clamp_u8 (35 + b div 4)
            else if has_tag t TAG_FIELD \<and> r = RES_PIG then clamp_u8 (30 + b div 4)
            else get_res ch r idx)"
  using assms by (simp add: put_field_def get_set_res RES_defs)

lemma put_forest_at:
  assumes "chunk_shape ch" "idx < CHUNK_CELLS" "0 \<le> r" "r < 14"
  shows "get_res (put_forest t b idx ch) r idx =
           (if has_tag t TAG_FOREST \<and> r = RES_WOOD then clamp_u8 (90 + b div 3)
            else if has_tag t TAG_FOREST \<and> r = RES_CHARCOAL then clamp_u8 (25 + b div 5)
            else get_res ch r idx)"
  using assms by (simp add: put_forest_def get_set_res RES_defs)

lemma put_wet_at:
  assumes "chunk_shape ch" "idx < CHUNK_CELLS" "0 \<le> r" "r < 14"
  shows "get_res (put_wet t b idx ch) r idx =
           (if (has_tag t TAG_RIVER \<or> has_tag t TAG_MARSH) \<and> r = RES_CLAY
            then clamp_u8 (60 + b div 4)
            else if has_tag t TAG_MARSH \<and> r = RES_PLANT_FIBER
                    \<and> get_res ch RES_PLANT_FIBER idx = 0
            then clamp_u8 (70 + b div 3)
            else get_res ch r idx)"
  using assms by (simp add: put_wet_def get_set_res RES_defs)

lemma put_hill_at:
  assumes "chunk_shape ch" "idx < CHUNK_CELLS" "0 \<le> r" "r < 14"
  shows "get_res (put_hill t b idx ch) r idx =
           (if has_tag t TAG_HILL \<and> r = RES_COPPER then (if b > 240 then 40 else 5)
            else if has_tag t TAG_HILL \<and> r = RES_TIN then (if b > 250 then 25 else 0)
            else get_res ch r idx)"
  using assms by (simp add: put_hill_def get_set_res RES_defs)

lemma put_settle_at:
  assumes "chunk_shape ch" "idx < CHUNK_CELLS" "0 \<le> r" "r < 14"
  shows "get_res (put_settle t b idx ch) r idx =
           (if has_tag t TAG_SETTLE \<and> r = RES_FIRE then clamp_u8 (180 + b div 4)
            else if has_tag t TAG_SETTLE \<and> r = RES_RELIGION then clamp_u8 (60 + b div 5)
            else if has_tag t TAG_SETTLE \<and> r = RES_TRIBALISM then clamp_u8 (20 + b div 8)
            else get_res ch r idx)"
  using assms by (simp add: put_settle_def get_set_res RES_defs)

lemma rk_cases:
  "rk < 14 \<Longrightarrow> rk \<in> {0, 1, 2, 3, 4, 5, 6, 7, 8, 9, 10, 11, 12, 13::nat}"
  by simp arith

lemma cell_index_bound: "iy < CHUNK_SIZE \<Longrightarrow> ix < CHUNK_SIZE \<Longrightarrow> iy * CHUNK_SIZE + ix < CHUNK_CELLS"
  by (simp add: CHUNK_CELLS_def CHUNK_SIZE_def)

lemma generate_cell_shape:
  "chunk_shape ch \<Longrightarrow> chunk_shape (generate_cell g n bx by iy ix ch)"
  by (simp add: generate_cell_stages Let_def)

lemma generate_cell_terrain:
  "terrain (generate_cell g n bx by iy ix ch)
     = (terrain ch)[iy * CHUNK_SIZE + ix := world_cell_tags g (bx + int ix) (by + int iy) n]"
  by (simp add: generate_cell_stages Let_def)

lemma generate_cell_other:
  "j \<noteq> iy * CHUNK_SIZE + ix \<Longrightarrow>
   get_res (generate_cell g n bx by iy ix ch) r j = get_res ch r j"
  by (simp add: generate_cell_stages Let_def put_other)

lemma generate_cell_res:
  assumes sh: "chunk_shape ch" and i: "iy < CHUNK_SIZE" "ix < CHUNK_SIZE" and rk: "rk < 14"
    and fresh: "\<forall>k < 14. get_res ch (int k) (iy * CHUNK_SIZE + ix) = 0"
  shows "get_res (generate_cell g n bx by iy ix ch) (int rk) (iy * CHUNK_SIZE + ix)
         = world_cell_res0 g (bx + int ix) (by + int iy) (int rk)
             (world_cell_tags g (bx + int ix) (by + int iy) n)"
proof -
  define idx where "idx = iy * CHUNK_SIZE + ix"
  define tags where "tags = world_cell_tags g (bx + int ix) (by + int iy) n"
  define base where "base = noise01 g (bx + int ix) (by + int iy) 0x9999DDDD"
  define ch1 where "ch1 = ch\<lparr>terrain := (terrain ch)[idx := tags]\<rparr>"
  have idx: "idx < CHUNK_CELLS" using i by (simp add: idx_def cell_index_bound)
  have sh1: "chunk_shape ch1" using sh by (simp add: ch1_def)
  have fr1: "get_res ch1 (int k) idx = 0" if "k < 14" for k
    using fresh that by (simp add: ch1_def idx_def)
  have g: "generate_cell g n bx by iy ix ch =
      put_settle tags base idx (put_hill tags base idx (put_wet tags base idx
           (put_forest tags base idx (put_field tags base idx (put_coast tags base idx ch1)))))"
    by (simp add: generate_cell_stages Let_def idx_def tags_def base_def ch1_def)
  note at = put_coast_at put_field_at put_forest_at put_wet_at put_hill_at put_settle_at
  have "get_res (generate_cell g n bx by iy ix ch) (int rk) idx
          = world_cell_res0 g (bx + int ix) (by + int iy) (int rk) tags"
    unfolding g world_cell_res0_def base_def [symmetric] Let_def
    using rk_cases [OF rk] sh1 idx
      fr1 [of 0] fr1 [of 1] fr1 [of 2] fr1 [of 3] fr1 [of 4] fr1 [of 5] fr1 [of 6]
      fr1 [of 7] fr1 [of 8] fr1 [of 9] fr1 [of 10] fr1 [of 11] fr1 [of 12] fr1 [of 13]
    by (elim insertE emptyE) (simp_all add: at RES_defs)
  then show ?thesis by (simp add: idx_def tags_def)
qed

text \<open>Cell \<open>(ix, iy)\<close> of a chunk holds what the per-cell reference functions give.\<close>

definition cell_done :: "WorldGen \<Rightarrow> int \<Rightarrow> int \<Rightarrow> int \<Rightarrow> Chunk \<Rightarrow> nat \<Rightarrow> nat \<Rightarrow> bool" where
  "cell_done g n bx by ch iy ix \<longleftrightarrow>
     terrain ch ! (iy * CHUNK_SIZE + ix) = world_cell_tags g (bx + int ix) (by + int iy) n
     \<and> (\<forall>k < 14. get_res ch (int k) (iy * CHUNK_SIZE + ix)
           = world_cell_res0 g (bx + int ix) (by + int iy) (int k)
               (world_cell_tags g (bx + int ix) (by + int iy) n))"

definition cell_fresh :: "Chunk \<Rightarrow> nat \<Rightarrow> bool" where
  "cell_fresh ch j \<longleftrightarrow> (\<forall>k < 14. get_res ch (int k) j = 0)"

definition same_cell :: "Chunk \<Rightarrow> Chunk \<Rightarrow> nat \<Rightarrow> bool" where
  "same_cell ch ch' j \<longleftrightarrow> terrain ch' ! j = terrain ch ! j \<and> (\<forall>r. get_res ch' r j = get_res ch r j)"

lemma same_cell_refl [simp]: "same_cell ch ch j"
  by (simp add: same_cell_def)

lemma same_cell_trans: "same_cell a b j \<Longrightarrow> same_cell b c j \<Longrightarrow> same_cell a c j"
  by (simp add: same_cell_def)

lemma same_cell_fresh: "same_cell ch ch' j \<Longrightarrow> cell_fresh ch j \<Longrightarrow> cell_fresh ch' j"
  by (simp add: same_cell_def cell_fresh_def)

lemma same_cell_done:
  "same_cell ch ch' (iy * CHUNK_SIZE + ix) \<Longrightarrow> cell_done g n bx by ch iy ix \<Longrightarrow>
   cell_done g n bx by ch' iy ix"
  by (simp add: same_cell_def cell_done_def)

lemma generate_cell_same:
  "j \<noteq> iy * CHUNK_SIZE + ix \<Longrightarrow> same_cell ch (generate_cell g n bx by iy ix ch) j"
  by (simp add: same_cell_def generate_cell_other generate_cell_terrain)

lemma generate_cell_done:
  assumes "chunk_shape ch" "iy < CHUNK_SIZE" "ix < CHUNK_SIZE"
    and "cell_fresh ch (iy * CHUNK_SIZE + ix)"
  shows "cell_done g n bx by (generate_cell g n bx by iy ix ch) iy ix"
proof -
  from assms(1-3) have "iy * CHUNK_SIZE + ix < length (terrain ch)"
    by (simp add: chunk_shape_def cell_index_bound)
  with assms show ?thesis
    by (simp add: cell_done_def generate_cell_terrain generate_cell_res cell_fresh_def)
qed

lemma cell_index_div_mod:
  "ix < CHUNK_SIZE \<Longrightarrow> (iy * CHUNK_SIZE + ix) div CHUNK_SIZE = iy
     \<and> (iy * CHUNK_SIZE + ix) mod CHUNK_SIZE = ix"
  by (simp add: CHUNK_SIZE_def)

lemma cell_index_inj:
  assumes "ix < CHUNK_SIZE" "ix' < CHUNK_SIZE"
  shows "iy * CHUNK_SIZE + ix = iy' * CHUNK_SIZE + ix' \<longleftrightarrow> iy = iy' \<and> ix = ix'"
proof
  assume e: "iy * CHUNK_SIZE + ix = iy' * CHUNK_SIZE + ix'"
  from cell_index_div_mod [OF assms(1), of iy] cell_index_div_mod [OF assms(2), of iy']
  show "iy = iy' \<and> ix = ix'" unfolding e by simp
qed simp

definition row_loop :: "WorldGen \<Rightarrow> int \<Rightarrow> int \<Rightarrow> int \<Rightarrow> nat \<Rightarrow> nat \<Rightarrow> Chunk \<Rightarrow> Chunk" where
  "row_loop g n bx by iy m ch = fold (\<lambda>ix ch. generate_cell g n bx by iy ix ch) [0..<m] ch"

lemma row_loop_Suc:
  "row_loop g n bx by iy (Suc m) ch = generate_cell g n bx by iy m (row_loop g n bx by iy m ch)"
  by (simp add: row_loop_def)

lemma row_loop_inv:
  assumes "chunk_shape ch" and "iy < CHUNK_SIZE"
    and "\<forall>ix < CHUNK_SIZE. cell_fresh ch (iy * CHUNK_SIZE + ix)"
  shows "m \<le> CHUNK_SIZE \<Longrightarrow>
         chunk_shape (row_loop g n bx by iy m ch)
         \<and> (\<forall>ix < m. cell_done g n bx by (row_loop g n bx by iy m ch) iy ix)
         \<and> (\<forall>j. (\<forall>ix < m. j \<noteq> iy * CHUNK_SIZE + ix)
                \<longrightarrow> same_cell ch (row_loop g n bx by iy m ch) j)"
proof (induction m)
  case 0
  with assms(1) show ?case by (simp add: row_loop_def)
next
  case (Suc m)
  let ?ch = "row_loop g n bx by iy m ch"
  let ?ch' = "generate_cell g n bx by iy m ?ch"
  from Suc have m: "m < CHUNK_SIZE" and sh: "chunk_shape ?ch"
    and dn: "\<forall>ix < m. cell_done g n bx by ?ch iy ix"
    and sm: "\<forall>j. (\<forall>ix < m. j \<noteq> iy * CHUNK_SIZE + ix) \<longrightarrow> same_cell ch ?ch j"
    by simp_all
  have "same_cell ch ?ch (iy * CHUNK_SIZE + m)" using sm by simp
  moreover have "cell_fresh ch (iy * CHUNK_SIZE + m)" using assms(3) m by simp
  ultimately have fr: "cell_fresh ?ch (iy * CHUNK_SIZE + m)" by (rule same_cell_fresh)
  have new: "cell_done g n bx by ?ch' iy m"
    using sh assms(2) m fr by (rule generate_cell_done)
  have old: "cell_done g n bx by ?ch' iy ix" if "ix < m" for ix
  proof -
    from that have "iy * CHUNK_SIZE + ix \<noteq> iy * CHUNK_SIZE + m" by simp
    then have "same_cell ?ch ?ch' (iy * CHUNK_SIZE + ix)" by (rule generate_cell_same)
    with dn that show ?thesis by (blast intro: same_cell_done)
  qed
  have rest: "same_cell ch ?ch' j" if "\<forall>ix < Suc m. j \<noteq> iy * CHUNK_SIZE + ix" for j
  proof -
    from that have "same_cell ch ?ch j" using sm by simp
    moreover from that have "same_cell ?ch ?ch' j" by (intro generate_cell_same) simp
    ultimately show ?thesis by (rule same_cell_trans)
  qed
  from sh new old rest show ?case
    by (auto simp: row_loop_Suc generate_cell_shape less_Suc_eq)
qed

definition rows_loop :: "WorldGen \<Rightarrow> int \<Rightarrow> int \<Rightarrow> int \<Rightarrow> nat \<Rightarrow> Chunk \<Rightarrow> Chunk" where
  "rows_loop g n bx by m ch =
     fold (\<lambda>iy ch. fold (\<lambda>ix ch. generate_cell g n bx by iy ix ch) [0..<CHUNK_SIZE] ch) [0..<m] ch"

lemma rows_loop_Suc:
  "rows_loop g n bx by (Suc m) ch = row_loop g n bx by m CHUNK_SIZE (rows_loop g n bx by m ch)"
  by (simp add: rows_loop_def row_loop_def)

lemma rows_loop_inv:
  assumes "chunk_shape ch" and "\<forall>j < CHUNK_CELLS. cell_fresh ch j"
  shows "m \<le> CHUNK_SIZE \<Longrightarrow>
         chunk_shape (rows_loop g n bx by m ch)
         \<and> (\<forall>iy < m. \<forall>ix < CHUNK_SIZE. cell_done g n bx by (rows_loop g n bx by m ch) iy ix)
         \<and> (\<forall>j. (\<forall>iy < m. \<forall>ix < CHUNK_SIZE. j \<noteq> iy * CHUNK_SIZE + ix)
                \<longrightarrow> same_cell ch (rows_loop g n bx by m ch) j)"
proof (induction m)
  case 0
  with assms(1) show ?case by (simp add: rows_loop_def)
next
  case (Suc m)
  let ?ch = "rows_loop g n bx by m ch"
  let ?ch' = "row_loop g n bx by m CHUNK_SIZE ?ch"
  from Suc have m: "m < CHUNK_SIZE" and sh: "chunk_shape ?ch"
    and dn: "\<forall>iy < m. \<forall>ix < CHUNK_SIZE. cell_done g n bx by ?ch iy ix"
    and sm: "\<forall>j. (\<forall>iy < m. \<forall>ix < CHUNK_SIZE. j \<noteq> iy * CHUNK_SIZE + ix) \<longrightarrow> same_cell ch ?ch j"
    by simp_all
  have fr: "\<forall>ix < CHUNK_SIZE. cell_fresh ?ch (m * CHUNK_SIZE + ix)"
  proof (intro allI impI)
    fix ix assume ix: "ix < CHUNK_SIZE"
    have "\<forall>iy < m. \<forall>ix' < CHUNK_SIZE. m * CHUNK_SIZE + ix \<noteq> iy * CHUNK_SIZE + ix'"
      using ix by (auto simp: cell_index_inj)
    with sm have "same_cell ch ?ch (m * CHUNK_SIZE + ix)" by blast
    moreover have "cell_fresh ch (m * CHUNK_SIZE + ix)"
      using assms(2) m ix by (simp add: cell_index_bound)
    ultimately show "cell_fresh ?ch (m * CHUNK_SIZE + ix)" by (rule same_cell_fresh)
  qed
  note row = row_loop_inv [OF sh m fr order_refl, of g n bx "by"]
  from row have sh': "chunk_shape ?ch'"
    and new: "\<forall>ix < CHUNK_SIZE. cell_done g n bx by ?ch' m ix"
    and keep: "\<forall>j. (\<forall>ix < CHUNK_SIZE. j \<noteq> m * CHUNK_SIZE + ix) \<longrightarrow> same_cell ?ch ?ch' j"
    by simp_all
  have old: "cell_done g n bx by ?ch' iy ix" if "iy < m" "ix < CHUNK_SIZE" for iy ix
  proof -
    have "\<forall>ix' < CHUNK_SIZE. iy * CHUNK_SIZE + ix \<noteq> m * CHUNK_SIZE + ix'"
      using that by (auto simp: cell_index_inj)
    with keep have "same_cell ?ch ?ch' (iy * CHUNK_SIZE + ix)" by blast
    with dn that show ?thesis by (blast intro: same_cell_done)
  qed
  have rest: "same_cell ch ?ch' j"
    if "\<forall>iy < Suc m. \<forall>ix < CHUNK_SIZE. j \<noteq> iy * CHUNK_SIZE + ix" for j
  proof -
    from that have "same_cell ch ?ch j" using sm by simp
    moreover from that keep have "same_cell ?ch ?ch' j" by simp
    ultimately show ?thesis by (rule same_cell_trans)
  qed
  from sh' new old rest show ?case
    by (auto simp: rows_loop_Suc less_Suc_eq)
qed

lemma Chunk0_fresh: "j < CHUNK_CELLS \<Longrightarrow> cell_fresh (Chunk0 cx cy) j"
  by (simp add: cell_fresh_def get_res_def Chunk0_def RES_MAX_def)

lemma generate_chunk_rows:
  "generate_chunk c cx cy =
     rows_loop (cache_gen c) (settlement_count (cache_spec c))
       (cx * int CHUNK_SIZE) (cy * int CHUNK_SIZE) CHUNK_SIZE (Chunk0 cx cy)"
  by (simp add: generate_chunk_def rows_loop_def Let_def)

lemma generate_chunk_cells:
  "chunk_shape (generate_chunk c cx cy)
   \<and> (\<forall>iy < CHUNK_SIZE. \<forall>ix < CHUNK_SIZE.
         cell_done (cache_gen c) (settlement_count (cache_spec c))
           (cx * int CHUNK_SIZE) (cy * int CHUNK_SIZE) (generate_chunk c cx cy) iy ix)"
proof -
  have fr: "\<forall>j < CHUNK_CELLS. cell_fresh (Chunk0 cx cy) j" by (simp add: Chunk0_fresh)
  from rows_loop_inv [OF chunk_shape_Chunk0 fr order_refl]
  show ?thesis unfolding generate_chunk_rows by blast
qed

lemma world_cell_tags_settle: "world_cell_tags g x y n = world_cell_tags g x y m"
  unfolding world_cell_tags_def by (rule refl)

lemma generate_cell_settle: "generate_cell g n = generate_cell g m"
  unfolding generate_cell_def world_cell_tags_settle [of g _ _ n m] by (rule refl)

lemma generate_chunk_gen:
  assumes "cache_gen c' = cache_gen c"
  shows "generate_chunk c' cx cy = generate_chunk c cx cy"
  unfolding generate_chunk_def Let_def assms
    generate_cell_settle [of _ "settlement_count (cache_spec c')" "settlement_count (cache_spec c)"]
  by (rule refl)

definition ex_cache :: ChunkCache where
  "ex_cache = ChunkCache_init 16 \<lparr>gen_seed = 1337\<rparr>
     \<lparr>ws_seed = 1337, settlement_count = 6, res_model = \<lparr>renew_per_day = replicate 14 0\<rparr>\<rparr>"

text \<open>
  C3: for every generator seed, chunk coordinate \<open>(cx, cy)\<close>, cell \<open>(ix, iy)\<close> of the chunk
  and resource kind \<open>rk\<close> of the 14 kinds, the chunk that \<open>_generate_chunk\<close> builds holds
  \<open>world_cell_tags\<close> of the cell's world coordinates in its terrain array and
  \<open>world_cell_res0\<close> of those coordinates, \<open>rk\<close> and those tags in plane \<open>rk\<close>; the arrays
  have 4096 entries in 14 planes; and the chunk depends on the cache only through its
  generator, so a chunk generated again, from whatever cache state, is the same chunk.
\<close>

theorem chunk_matches_reference:
  assumes "ix < CHUNK_SIZE" and "iy < CHUNK_SIZE" and "rk < RES_MAX"
  shows "terrain (generate_chunk c cx cy) ! (iy * CHUNK_SIZE + ix)
           = world_cell_tags (cache_gen c) (cx * int CHUNK_SIZE + int ix)
               (cy * int CHUNK_SIZE + int iy) (settlement_count (cache_spec c))
         \<and> res (generate_chunk c cx cy) ! rk ! (iy * CHUNK_SIZE + ix)
           = world_cell_res0 (cache_gen c) (cx * int CHUNK_SIZE + int ix)
               (cy * int CHUNK_SIZE + int iy) (int rk)
               (world_cell_tags (cache_gen c) (cx * int CHUNK_SIZE + int ix)
                  (cy * int CHUNK_SIZE + int iy) (settlement_count (cache_spec c)))
         \<and> length (terrain (generate_chunk c cx cy)) = CHUNK_CELLS
         \<and> length (res (generate_chunk c cx cy)) = RES_MAX
         \<and> length (res (generate_chunk c cx cy) ! rk) = CHUNK_CELLS
         \<and> (\<forall>c'. cache_gen c' = cache_gen c \<longrightarrow> generate_chunk c' cx cy = generate_chunk c cx cy)"
proof -
  from generate_chunk_cells [of c cx cy] assms(1,2)
  have sh: "chunk_shape (generate_chunk c cx cy)"
    and dn: "cell_done (cache_gen c) (settlement_count (cache_spec c))
           (cx * int CHUNK_SIZE) (cy * int CHUNK_SIZE) (generate_chunk c cx cy) iy ix"
    by simp_all
  from assms(3) have rk: "rk < 14" by (simp add: RES_MAX_def)
  from dn rk have "get_res (generate_chunk c cx cy) (int rk) (iy * CHUNK_SIZE + ix)
           = world_cell_res0 (cache_gen c) (cx * int CHUNK_SIZE + int ix)
               (cy * int CHUNK_SIZE + int iy) (int rk)
               (world_cell_tags (cache_gen c) (cx * int CHUNK_SIZE + int ix)
                  (cy * int CHUNK_SIZE + int iy) (settlement_count (cache_spec c)))"
    unfolding cell_done_def by blast
  with dn sh assms(3)
  have "terrain (generate_chunk c cx cy) ! (iy * CHUNK_SIZE + ix)
           = world_cell_tags (cache_gen c) (cx * int CHUNK_SIZE + int ix)
               (cy * int CHUNK_SIZE + int iy) (settlement_count (cache_spec c))
         \<and> res (generate_chunk c cx cy) ! rk ! (iy * CHUNK_SIZE + ix)
           = world_cell_res0 (cache_gen c) (cx * int CHUNK_SIZE + int ix)
               (cy * int CHUNK_SIZE + int iy) (int rk)
               (world_cell_tags (cache_gen c) (cx * int CHUNK_SIZE + int ix)
                  (cy * int CHUNK_SIZE + int iy) (settlement_count (cache_spec c)))
         \<and> length (terrain (generate_chunk c cx cy)) = CHUNK_CELLS
         \<and> length (res (generate_chunk c cx cy)) = RES_MAX
         \<and> length (res (generate_chunk c cx cy) ! rk) = CHUNK_CELLS"
    by (simp add: cell_done_def chunk_shape_def get_res_def)
  moreover have "\<forall>c'. cache_gen c' = cache_gen c
      \<longrightarrow> generate_chunk c' cx cy = generate_chunk c cx cy"
    by (blast intro: generate_chunk_gen)
  ultimately show ?thesis by blast
qed

theorem chunk_matches_reference_witness:
  "(3::nat) < CHUNK_SIZE \<and> (5::nat) < CHUNK_SIZE \<and> (7::nat) < RES_MAX
   \<and> terrain (generate_chunk ex_cache 10 10) ! (5 * CHUNK_SIZE + 3) = TAG_MARSH
   \<and> res (generate_chunk ex_cache 10 10) ! 7 ! (5 * CHUNK_SIZE + 3) = 140"
proof -
  have h: "(3::nat) < CHUNK_SIZE" "(5::nat) < CHUNK_SIZE" "(7::nat) < RES_MAX"
    by (simp_all add: CHUNK_SIZE_def RES_MAX_def)
  have t: "world_cell_tags (cache_gen ex_cache) (10 * int CHUNK_SIZE + int 3)
             (10 * int CHUNK_SIZE + int 5) (settlement_count (cache_spec ex_cache)) = TAG_MARSH"
    by (simp add: world_cell_tags_def ex_cache_def ChunkCache_init_def CHUNK_SIZE_def
        noise01_def brz_hash_u32_def brz_splitmix64_def MASK32_def MASK64_def
        is_coast_cell_def has_tag_def WORLD_CELLS_X_def WORLD_CELLS_Y_def
        TAG_COAST_def TAG_BEACH_def TAG_FOREST_def TAG_MARSH_def TAG_HILL_def TAG_RIVER_def
        TAG_FIELD_def TAG_SETTLE_def)
  have r: "world_cell_res0 (cache_gen ex_cache) (10 * int CHUNK_SIZE + int 3)
             (10 * int CHUNK_SIZE + int 5) (int 7) TAG_MARSH = 140"
    by (simp add: world_cell_res0_def ex_cache_def ChunkCache_init_def CHUNK_SIZE_def
        noise01_def brz_hash_u32_def brz_splitmix64_def MASK32_def MASK64_def
        has_tag_def clamp_u8_def RES_defs TAG_MARSH_def TAG_FIELD_def)
  note m = chunk_matches_reference [OF h, of ex_cache 10 10]
  from m [THEN conjunct1] t
  have a: "terrain (generate_chunk ex_cache 10 10) ! (5 * CHUNK_SIZE + 3) = TAG_MARSH"
    by (simp only:)
  from m [THEN conjunct2, THEN conjunct1] t r
  have b: "res (generate_chunk ex_cache 10 10) ! 7 ! (5 * CHUNK_SIZE + 3) = 140"
    by (simp only:)
  from h a b show ?thesis by (intro conjI)
qed

subsection \<open>The chunk cache\<close>

text \<open>A sequence of cell lookups, each on the cache the one before it left.\<close>

definition lookups :: "ChunkCache \<Rightarrow> (int \<times> int) list \<Rightarrow> ChunkCache" where
  "lookups c ps = fold (\<lambda>p c. snd (get_cell c (fst p) (snd p))) ps c"

text \<open>The chunk that holds a cell.\<close>

definition chunk_key :: "int \<times> int \<Rightarrow> int \<times> int" where
  "chunk_key p = (fst p div int CHUNK_SIZE, snd p div int CHUNK_SIZE)"

text \<open>
  The \<open>m\<close> most recently used keys of a history of lookups, least recent first.
  (\<open>remdups\<close> keeps the last occurrence of each key.)
\<close>

definition recent_keys :: "nat \<Rightarrow> (int \<times> int) list \<Rightarrow> (int \<times> int) list" where
  "recent_keys m ks = (let r = remdups ks in drop (length r - m) r)"

text \<open>What one lookup does to the list of resident keys.\<close>

definition key_step :: "nat \<Rightarrow> (int \<times> int) list \<Rightarrow> int \<times> int \<Rightarrow> (int \<times> int) list" where
  "key_step m ks k =
     (if k \<in> set ks then filter (\<lambda>j. j \<noteq> k) ks @ [k]
      else if length ks + 1 > m then tl (ks @ [k]) else ks @ [k])"

text \<open>What holds of the cache in every state.\<close>

definition cache_ok :: "ChunkCache \<Rightarrow> bool" where
  "cache_ok c \<longleftrightarrow>
     1 \<le> max_chunks c
     \<and> distinct (map fst (lru c))
     \<and> int (length (lru c)) \<le> max_chunks c
     \<and> (\<forall>kv \<in> set (lru c). snd kv = generate_chunk c (fst (fst kv)) (snd (fst kv)))"

lemma get_chunk_static [simp]:
  "max_chunks (snd (get_chunk c cx cy)) = max_chunks c"
  "cache_gen (snd (get_chunk c cx cy)) = cache_gen c"
  "cache_spec (snd (get_chunk c cx cy)) = cache_spec c"
  by (simp_all add: get_chunk_def Let_def split: option.splits)

lemma get_cell_get_chunk:
  "snd (get_cell c x y) = snd (get_chunk c (x div int CHUNK_SIZE) (y div int CHUNK_SIZE))"
  by (simp add: get_cell_def Let_def split: prod.splits)

lemma get_cell_chunk:
  "fst (fst (get_cell c x y)) = fst (get_chunk c (x div int CHUNK_SIZE) (y div int CHUNK_SIZE))"
  by (simp add: get_cell_def Let_def split: prod.splits)

lemma map_of_keys: "map_of l k = None \<longleftrightarrow> k \<notin> set (map fst l)"
  by (simp add: map_of_eq_None_iff)

lemma map_fst_filter_keys:
  "map fst (filter (\<lambda>kv. fst kv \<noteq> k) l) = filter (\<lambda>j. j \<noteq> k) (map fst l)"
  by (induction l) auto

lemma get_chunk_keys:
  assumes "1 \<le> max_chunks c"
  shows "map fst (lru (snd (get_chunk c cx cy)))
           = key_step (nat (max_chunks c)) (map fst (lru c)) (cx, cy)"
proof (cases "map_of (lru c) (cx, cy)")
  case None
  then have "(cx, cy) \<notin> set (map fst (lru c))" by (simp add: map_of_keys)
  with None assms show ?thesis
    by (auto simp add: get_chunk_def key_step_def Let_def map_tl)
next
  case (Some ch)
  then have "((cx, cy), ch) \<in> set (lru c)" by (rule map_of_SomeD)
  then have "(cx, cy) \<in> set (map fst (lru c))" by force
  with Some show ?thesis
    by (simp add: get_chunk_def key_step_def map_fst_filter_keys Let_def)
qed

lemma get_chunk_ok:
  assumes "cache_ok c"
  shows "cache_ok (snd (get_chunk c cx cy))"
    and "fst (get_chunk c cx cy) = generate_chunk c cx cy"
proof -
  from assms have mx: "1 \<le> max_chunks c" and d: "distinct (map fst (lru c))"
    and n: "int (length (lru c)) \<le> max_chunks c"
    and g: "\<forall>kv \<in> set (lru c). snd kv = generate_chunk c (fst (fst kv)) (snd (fst kv))"
    by (simp_all add: cache_ok_def)
  have gen: "generate_chunk (snd (get_chunk c cx cy)) = generate_chunk c"
    by (intro ext generate_chunk_gen) simp
  show r: "fst (get_chunk c cx cy) = generate_chunk c cx cy"
  proof (cases "map_of (lru c) (cx, cy)")
    case None
    then show ?thesis by (simp add: get_chunk_def Let_def)
  next
    case (Some ch)
    then have "((cx, cy), ch) \<in> set (lru c)" by (rule map_of_SomeD)
    with g have "ch = generate_chunk c cx cy" by fastforce
    with Some show ?thesis by (simp add: get_chunk_def Let_def)
  qed
  show "cache_ok (snd (get_chunk c cx cy))"
  proof (cases "map_of (lru c) (cx, cy)")
    case None
    then have nk: "(cx, cy) \<notin> set (map fst (lru c))" by (simp add: map_of_keys)
    show ?thesis
    proof (cases "int (length (lru c)) + 1 > max_chunks c")
      case True
      with mx have ne: "lru c \<noteq> []" by auto
      from None True have l: "lru (snd (get_chunk c cx cy))
          = tl (lru c) @ [((cx, cy), generate_chunk c cx cy)]"
        using ne by (simp add: get_chunk_def Let_def)
      from d ne have d': "distinct (map fst (tl (lru c)))"
        by (simp add: map_tl distinct_tl)
      from nk ne have nk': "(cx, cy) \<notin> set (map fst (tl (lru c)))"
        by (metis list.set_sel(2) map_tl list.map_disc_iff)
      from g ne have g': "\<forall>kv \<in> set (tl (lru c)).
          snd kv = generate_chunk c (fst (fst kv)) (snd (fst kv))"
        by (meson list.set_sel(2))
      from ne have "length (tl (lru c)) + 1 = length (lru c)"
        by (cases "lru c") simp_all
      then have "int (length (tl (lru c))) + 1 = int (length (lru c))" by linarith
      with n have n': "int (length (tl (lru c))) + 1 \<le> max_chunks c" by linarith
      from mx d' nk' g' n' show ?thesis
        unfolding cache_ok_def gen l by auto
    next
      case False
      with None have l: "lru (snd (get_chunk c cx cy))
          = lru c @ [((cx, cy), generate_chunk c cx cy)]"
        by (simp add: get_chunk_def Let_def)
      from mx d nk g False show ?thesis
        unfolding cache_ok_def gen l by auto
    qed
  next
    case (Some ch)
    then have m: "((cx, cy), ch) \<in> set (lru c)" by (rule map_of_SomeD)
    with g have ch: "ch = generate_chunk c cx cy" by fastforce
    from Some have l: "lru (snd (get_chunk c cx cy))
        = filter (\<lambda>kv. fst kv \<noteq> (cx, cy)) (lru c) @ [((cx, cy), ch)]"
      by (simp add: get_chunk_def Let_def)
    from d have d': "distinct (map fst (filter (\<lambda>kv. fst kv \<noteq> (cx, cy)) (lru c)))"
      by (simp add: map_fst_filter_keys)
    have len: "length (filter (\<lambda>kv. fst kv \<noteq> (cx, cy)) (lru c)) < length (lru c)"
      using m by (intro length_filter_less [of "((cx, cy), ch)"]) simp_all
    from mx d' g n len ch show ?thesis
      unfolding cache_ok_def gen l by auto
  qed
qed

lemma remdups_snoc:
  "remdups (xs @ [x]) = filter (\<lambda>j. j \<noteq> x) (remdups xs) @ [x]"
  by (induction xs) auto

lemma filter_absent: "k \<notin> set xs \<Longrightarrow> filter (\<lambda>j. j \<noteq> k) xs = xs"
  by (induction xs) auto

lemma length_filter_present:
  "distinct xs \<Longrightarrow> k \<in> set xs \<Longrightarrow> Suc (length (filter (\<lambda>j. j \<noteq> k) xs)) = length xs"
  by (induction xs) (auto simp add: filter_absent)

lemma key_step_recent:
  assumes "1 \<le> m"
  shows "key_step m (recent_keys m ks) k = recent_keys m (ks @ [k])"
proof -
  define R where "R = remdups ks"
  define d where "d = length R - m"
  define L where "L = drop d R"
  have dR: "distinct R" by (simp add: R_def)
  have split: "R = take d R @ L" by (simp add: L_def)
  have dle: "d \<le> length R" by (simp add: d_def)
  have lenL: "length L = min (length R) m" by (simp add: L_def d_def)
  have lhs: "recent_keys m ks = L" by (simp add: recent_keys_def R_def d_def L_def Let_def)
  have rhs: "recent_keys m (ks @ [k])
      = drop (length (filter (\<lambda>j. j \<noteq> k) R @ [k]) - m) (filter (\<lambda>j. j \<noteq> k) R @ [k])"
    by (simp add: recent_keys_def remdups_snoc R_def Let_def)
  have fsplit: "filter (\<lambda>j. j \<noteq> k) R
      = filter (\<lambda>j. j \<noteq> k) (take d R) @ filter (\<lambda>j. j \<noteq> k) L"
    by (subst split) (simp only: filter_append)
  from dR split have disj: "set (take d R) \<inter> set L = {}"
    by (metis distinct_append)
  consider (hit) "k \<in> set L" | (old) "k \<notin> set L" "k \<in> set R" | (new) "k \<notin> set R"
    by blast
  then show ?thesis
  proof cases
    case hit
    with disj have "k \<notin> set (take d R)" by blast
    then have f: "filter (\<lambda>j. j \<noteq> k) R = take d R @ filter (\<lambda>j. j \<noteq> k) L"
      using fsplit by (simp add: filter_absent)
    from hit split have kR: "k \<in> set R" by (metis Un_iff set_append)
    from length_filter_present [OF dR kR]
    have len: "length (filter (\<lambda>j. j \<noteq> k) R @ [k]) = length R" by simp
    have "drop d ((take d R @ filter (\<lambda>j. j \<noteq> k) L) @ [k]) = filter (\<lambda>j. j \<noteq> k) L @ [k]"
      using dle by simp
    with f len have "recent_keys m (ks @ [k]) = filter (\<lambda>j. j \<noteq> k) L @ [k]"
      unfolding rhs d_def by simp
    with hit lhs show ?thesis by (simp add: key_step_def)
  next
    case old
    with split have kT: "k \<in> set (take d R)" by (metis Un_iff set_append)
    then have dpos: "0 < d" by (cases d) simp_all
    then have big: "m < length R" by (simp add: d_def)
    with lenL have lm: "length L = m" by simp
    with assms have ne: "L \<noteq> []" by auto
    from dR have dT: "distinct (take d R)" by (rule distinct_take)
    from length_filter_present [OF dT kT] dle
    have lenF: "Suc (length (filter (\<lambda>j. j \<noteq> k) (take d R))) = d" by simp
    from old(1) fsplit have f: "filter (\<lambda>j. j \<noteq> k) R
        = filter (\<lambda>j. j \<noteq> k) (take d R) @ L"
      by (simp add: filter_absent)
    from length_filter_present [OF dR old(2)]
    have len: "length (filter (\<lambda>j. j \<noteq> k) R @ [k]) = length R" by simp
    from lenF have "d - length (filter (\<lambda>j. j \<noteq> k) (take d R)) = 1"
      and "length (filter (\<lambda>j. j \<noteq> k) (take d R)) \<le> d" by linarith+
    then have "drop d (filter (\<lambda>j. j \<noteq> k) (take d R) @ (L @ [k])) = drop 1 (L @ [k])"
      by (simp only: drop_append drop_all append_Nil)
    also from ne have "drop 1 (L @ [k]) = tl L @ [k]" by (cases L) simp_all
    finally have "drop d (filter (\<lambda>j. j \<noteq> k) (take d R) @ (L @ [k])) = tl L @ [k]" .
    with f len have "recent_keys m (ks @ [k]) = tl L @ [k]"
      unfolding rhs d_def by simp
    with old(1) lhs lm ne show ?thesis by (simp add: key_step_def)
  next
    case new
    then have f: "filter (\<lambda>j. j \<noteq> k) R = R" by (rule filter_absent)
    from new split have kL: "k \<notin> set L" by (metis Un_iff set_append)
    show ?thesis
    proof (cases "length L + 1 > m")
      case True
      with lenL have ge: "m \<le> length R" by simp
      with lenL have lm: "length L = m" by simp
      with assms have ne: "L \<noteq> []" by auto
      from ge assms have "length (R @ [k]) - m = Suc d" by (simp add: d_def)
      moreover from ge assms have "Suc d \<le> length R" by (simp add: d_def)
      ultimately have "drop (length (R @ [k]) - m) (R @ [k]) = drop (Suc d) R @ [k]"
        by simp
      also have "drop (Suc d) R = tl L" by (simp add: L_def drop_Suc drop_tl)
      finally have "recent_keys m (ks @ [k]) = tl L @ [k]" unfolding rhs f .
      with kL lhs True ne show ?thesis by (simp add: key_step_def)
    next
      case False
      with lenL have lt: "length R < m" by simp
      then have "d = 0" by (simp add: d_def)
      then have LR: "L = R" by (simp add: L_def)
      from lt have "drop (length (R @ [k]) - m) (R @ [k]) = R @ [k]" by simp
      then have "recent_keys m (ks @ [k]) = L @ [k]" unfolding rhs f LR .
      with kL lhs False show ?thesis by (simp add: key_step_def)
    qed
  qed
qed

lemma lookups_snoc:
  "lookups c (ps @ [p])
     = snd (get_chunk (lookups c ps) (fst (chunk_key p)) (snd (chunk_key p)))"
  by (simp add: lookups_def get_cell_get_chunk chunk_key_def)

lemma lookups_static [simp]:
  "max_chunks (lookups c ps) = max_chunks c"
  "cache_gen (lookups c ps) = cache_gen c"
  "cache_spec (lookups c ps) = cache_spec c"
  by (induction ps rule: rev_induct) (simp_all add: lookups_snoc, simp_all add: lookups_def)

lemma lookups_generate: "generate_chunk (lookups c ps) = generate_chunk c"
  by (intro ext generate_chunk_gen) simp

lemma cache_ok_init: "cache_ok (ChunkCache_init mx g spec)"
  by (simp add: cache_ok_def ChunkCache_init_def)

lemma lookups_ok: "cache_ok c \<Longrightarrow> cache_ok (lookups c ps)"
  by (induction ps rule: rev_induct) (simp_all add: lookups_snoc get_chunk_ok(1), simp add: lookups_def)

lemma lookups_keys:
  "map fst (lru (lookups (ChunkCache_init mx g spec) ps))
     = recent_keys (nat (max 1 mx)) (map chunk_key ps)"
proof (induction ps rule: rev_induct)
  case Nil
  show ?case by (simp add: lookups_def ChunkCache_init_def recent_keys_def)
next
  case (snoc p ps)
  let ?c = "lookups (ChunkCache_init mx g spec) ps"
  have mx: "max_chunks ?c = max 1 mx" by (simp add: ChunkCache_init_def)
  then have "1 \<le> max_chunks ?c" by simp
  from get_chunk_keys [OF this, of "fst (chunk_key p)" "snd (chunk_key p)"] mx snoc.IH
  have "map fst (lru (lookups (ChunkCache_init mx g spec) (ps @ [p])))
      = key_step (nat (max 1 mx)) (recent_keys (nat (max 1 mx)) (map chunk_key ps)) (chunk_key p)"
    by (simp add: lookups_snoc)
  also have "\<dots> = recent_keys (nat (max 1 mx)) (map chunk_key ps @ [chunk_key p])"
    by (rule key_step_recent) simp
  finally show ?case by simp
qed

text \<open>A cache of two chunks, and four cell lookups in the chunks \<open>(0,0)\<close>, \<open>(1,0)\<close>, \<open>(0,0)\<close>,
  \<open>(2,0)\<close>.\<close>

definition ex_small_cache :: ChunkCache where
  "ex_small_cache = ChunkCache_init 2 \<lparr>gen_seed = 1337\<rparr>
     \<lparr>ws_seed = 1337, settlement_count = 6, res_model = \<lparr>renew_per_day = replicate 14 0\<rparr>\<rparr>"

definition ex_cells :: "(int \<times> int) list" where
  "ex_cells = [(3, 5), (70, 9), (63, 63), (130, 1)]"

text \<open>
  C9: in the cache reached from a new cache by any sequence of cell lookups, the keys are
  distinct and at most \<open>max_chunks\<close> in number (the capacity the cache was made with, or
  1 if that is smaller; the configuration gives at least 16); they
  are the most recently looked-up chunk keys, least recent first. A lookup of a resident
  chunk moves its entry to the end and leaves the others in order; a lookup of an absent
  chunk appends it, and if the cache was full drops the head, which is the least recently
  used entry, and nothing else. Whether the chunk is resident, new or was evicted before,
  the chunk returned is the one the generator gives for its coordinates.
\<close>

theorem chunk_cache_lru:
  assumes "c0 = ChunkCache_init mx g spec"
    and "c = lookups c0 ps"
    and "ch = generate_chunk c0 cx cy"
  shows "distinct (map fst (lru c))
         \<and> int (length (lru c)) \<le> max_chunks c
         \<and> max_chunks c = max 1 mx
         \<and> (1 \<le> mx \<longrightarrow> int (length (lru c)) \<le> mx)
         \<and> map fst (lru c) = recent_keys (nat (max 1 mx)) (map chunk_key ps)
         \<and> fst (get_chunk c cx cy) = ch
         \<and> (\<forall>x y. chunk_key (x, y) = (cx, cy) \<longrightarrow> fst (fst (get_cell c x y)) = ch)
         \<and> ((cx, cy) \<in> set (map fst (lru c)) \<longrightarrow>
               lru (snd (get_chunk c cx cy))
                 = filter (\<lambda>kv. fst kv \<noteq> (cx, cy)) (lru c) @ [((cx, cy), ch)])
         \<and> ((cx, cy) \<notin> set (map fst (lru c)) \<and> int (length (lru c)) < max_chunks c \<longrightarrow>
               lru (snd (get_chunk c cx cy)) = lru c @ [((cx, cy), ch)])
         \<and> ((cx, cy) \<notin> set (map fst (lru c)) \<and> int (length (lru c)) = max_chunks c \<longrightarrow>
               lru (snd (get_chunk c cx cy)) = tl (lru c) @ [((cx, cy), ch)])"
proof -
  have ok: "cache_ok c" unfolding assms(1,2) by (intro lookups_ok cache_ok_init)
  have gen: "generate_chunk c = generate_chunk c0" unfolding assms(2) by (rule lookups_generate)
  from ok have d: "distinct (map fst (lru c))" and n: "int (length (lru c)) \<le> max_chunks c"
    and one: "1 \<le> max_chunks c"
    by (simp_all add: cache_ok_def)
  have mx: "max_chunks c = max 1 mx" unfolding assms(1,2) by (simp add: ChunkCache_init_def)
  have keys: "map fst (lru c) = recent_keys (nat (max 1 mx)) (map chunk_key ps)"
    unfolding assms(1,2) by (rule lookups_keys)
  have ret: "fst (get_chunk c cx cy) = ch"
    using get_chunk_ok(2) [OF ok, of cx cy] gen assms(3) by simp
  have cell: "\<forall>x y. chunk_key (x, y) = (cx, cy) \<longrightarrow> fst (fst (get_cell c x y)) = ch"
    using ret by (auto simp add: get_cell_chunk chunk_key_def)
  have hit: "lru (snd (get_chunk c cx cy))
                 = filter (\<lambda>kv. fst kv \<noteq> (cx, cy)) (lru c) @ [((cx, cy), ch)]"
    if "(cx, cy) \<in> set (map fst (lru c))"
  proof -
    from that obtain ch' where s: "map_of (lru c) (cx, cy) = Some ch'"
      using map_of_keys [of "lru c" "(cx, cy)"] by auto
    with ret have "ch' = ch" by (simp add: get_chunk_def Let_def)
    with s show ?thesis by (simp add: get_chunk_def Let_def)
  qed
  have miss: "lru (snd (get_chunk c cx cy))
      = (if int (length (lru c)) = max_chunks c then tl (lru c) else lru c) @ [((cx, cy), ch)]"
    if "(cx, cy) \<notin> set (map fst (lru c))"
  proof -
    from that have s: "map_of (lru c) (cx, cy) = None" by (simp add: map_of_keys)
    from one n have "int (length (lru c)) = max_chunks c \<longrightarrow> lru c \<noteq> []" by auto
    with s n gen assms(3) show ?thesis by (auto simp add: get_chunk_def Let_def)
  qed
  from miss have m1: "(cx, cy) \<notin> set (map fst (lru c)) \<and> int (length (lru c)) < max_chunks c \<longrightarrow>
               lru (snd (get_chunk c cx cy)) = lru c @ [((cx, cy), ch)]"
    by simp
  from miss have m2: "(cx, cy) \<notin> set (map fst (lru c)) \<and> int (length (lru c)) = max_chunks c \<longrightarrow>
               lru (snd (get_chunk c cx cy)) = tl (lru c) @ [((cx, cy), ch)]"
    by simp
  from hit have h: "(cx, cy) \<in> set (map fst (lru c)) \<longrightarrow>
               lru (snd (get_chunk c cx cy))
                 = filter (\<lambda>kv. fst kv \<noteq> (cx, cy)) (lru c) @ [((cx, cy), ch)]"
    by blast
  from n mx have cap: "1 \<le> mx \<longrightarrow> int (length (lru c)) \<le> mx" by (auto simp add: max_def)
  from d n mx cap keys ret cell h m1 m2 show ?thesis by (intro conjI)
qed

theorem chunk_cache_lru_witness:
  "map chunk_key ex_cells = [(0, 0), (1, 0), (0, 0), (2, 0)]
   \<and> map fst (lru (lookups ex_small_cache ex_cells)) = [(0, 0), (2, 0)]
   \<and> int (length (lru (lookups ex_small_cache ex_cells)))
       = max_chunks (lookups ex_small_cache ex_cells)
   \<and> fst (get_chunk (lookups ex_small_cache ex_cells) 1 0) = generate_chunk ex_small_cache 1 0
   \<and> lru (snd (get_chunk (lookups ex_small_cache ex_cells) 1 0))
       = tl (lru (lookups ex_small_cache ex_cells)) @ [((1, 0), generate_chunk ex_small_cache 1 0)]
   \<and> map fst (lru (snd (get_chunk (lookups ex_small_cache ex_cells) 1 0))) = [(2, 0), (1, 0)]"
proof -
  let ?c = "lookups ex_small_cache ex_cells"
  note m = chunk_cache_lru [OF ex_small_cache_def refl refl, of ex_cells 1 0]
  have ks: "map chunk_key ex_cells = [(0, 0), (1, 0), (0, 0), (2, 0)]"
    by (simp add: ex_cells_def chunk_key_def CHUNK_SIZE_def)
  have "recent_keys (nat (max 1 2)) [(0, 0), (1, 0), (0, 0), (2, 0)] = [(0::int, 0::int), (2, 0)]"
    by (simp add: recent_keys_def)
  with m ks have keys: "map fst (lru ?c) = [(0, 0), (2, 0)]" by simp
  from m have mx: "max_chunks ?c = 2" by simp
  from keys have "length (map fst (lru ?c)) = 2" by simp
  then have len: "length (lru ?c) = 2" by simp
  with mx have full: "int (length (lru ?c)) = max_chunks ?c" by simp
  from keys have absent: "(1, 0) \<notin> set (map fst (lru ?c))" by simp
  from m have ret: "fst (get_chunk ?c 1 0) = generate_chunk ex_small_cache 1 0" by blast
  from m absent full
  have ev: "lru (snd (get_chunk ?c 1 0)) = tl (lru ?c) @ [((1, 0), generate_chunk ex_small_cache 1 0)]"
    by blast
  from keys have "map fst (tl (lru ?c)) = [(2, 0)]" by (simp add: map_tl)
  with ev have after: "map fst (lru (snd (get_chunk ?c 1 0))) = [(2, 0), (1, 0)]" by simp
  from ks keys full ret ev after show ?thesis by (intro conjI)
qed

end
